theory Spec2Isabelle
  imports Main "HOL-Library.AList"
begin

section \<open>Python string primitives used by \<open>scripts/convert_review_issues.py\<close>\<close>

text \<open>
  Python's \<open>str\<close> is modelled by \<open>string\<close>; a character is a code point below 256.
  \<open>isspace_chr\<close> is \<open>str.isspace\<close> on one character, which is also the class \<open>\s\<close> of
  the \<open>re\<close> module for \<open>str\<close> patterns: the code points 9-13, 28-31, 32, 133 and 160.
  Outside the model are the code points from 256 on, a text that \<open>read_text\<close> cannot
  decode, and the bound that CPython puts on the number of digits \<open>int\<close> converts.
\<close>

definition isspace_chr :: "char \<Rightarrow> bool" where
  "isspace_chr c = (c \<in> set [CHR 0x09, CHR 0x0A, CHR 0x0B, CHR 0x0C, CHR 0x0D,
      CHR 0x1C, CHR 0x1D, CHR 0x1E, CHR 0x1F, CHR 0x20, CHR 0x85, CHR 0xA0])"

definition is_digit :: "char \<Rightarrow> bool" where
  \<comment> \<open>the class \<open>\d\<close> (and \<open>0-9\<close>): below code point 256 the decimal digits are 0-9\<close>
  "is_digit c = (c \<in> set ''0123456789'')"

definition is_ascii_upper :: "char \<Rightarrow> bool" where
  "is_ascii_upper c = (c \<in> set ''ABCDEFGHIJKLMNOPQRSTUVWXYZ'')"

definition is_ascii_lower :: "char \<Rightarrow> bool" where
  "is_ascii_lower c = (c \<in> set ''abcdefghijklmnopqrstuvwxyz'')"

definition is_alnum :: "char \<Rightarrow> bool" where
  \<comment> \<open>the class \<open>[A-Za-z0-9]\<close>\<close>
  "is_alnum c = (is_ascii_upper c \<or> is_ascii_lower c \<or> is_digit c)"

definition newline :: char where
  "newline = CHR 0x0A"

definition strip_chars :: "(char \<Rightarrow> bool) \<Rightarrow> string \<Rightarrow> string" where
  \<comment> \<open>\<open>s.strip(chars)\<close>: drop the characters of the set from both ends\<close>
  "strip_chars P s = rev (dropWhile P (rev (dropWhile P s)))"

definition strip :: "string \<Rightarrow> string" where
  \<comment> \<open>\<open>s.strip()\<close>\<close>
  "strip s = strip_chars isspace_chr s"

definition rstrip :: "string \<Rightarrow> string" where
  \<comment> \<open>\<open>s.rstrip()\<close>\<close>
  "rstrip s = rev (dropWhile isspace_chr (rev s))"

definition upper_chr :: "char \<Rightarrow> char" where
  \<comment> \<open>\<open>str.upper\<close> on an ASCII character (the only characters it meets in this program)\<close>
  "upper_chr c = (case map_of (zip ''abcdefghijklmnopqrstuvwxyz'' ''ABCDEFGHIJKLMNOPQRSTUVWXYZ'') c of
      None \<Rightarrow> c | Some u \<Rightarrow> u)"

definition upper :: "string \<Rightarrow> string" where
  "upper s = map upper_chr s"

definition endswith :: "string \<Rightarrow> string \<Rightarrow> bool" where
  \<comment> \<open>\<open>s.endswith(suffix)\<close>\<close>
  "endswith s suffix = (length suffix \<le> length s \<and> drop (length s - length suffix) s = suffix)"

definition slice :: "nat \<Rightarrow> nat \<Rightarrow> 'a list \<Rightarrow> 'a list" where
  \<comment> \<open>\<open>s[a:b]\<close> for indices that are not negative\<close>
  "slice a b s = drop a (take b s)"

fun join :: "string \<Rightarrow> string list \<Rightarrow> string" where
  \<comment> \<open>\<open>sep.join(parts)\<close>\<close>
  "join sep [] = []"
| "join sep [x] = x"
| "join sep (x # y # ys) = x @ sep @ join sep (y # ys)"

function sub_runs :: "(char \<Rightarrow> bool) \<Rightarrow> string \<Rightarrow> string \<Rightarrow> string" where
  \<comment> \<open>\<open>re.sub("[class]+", repl, s)\<close>: scanning from the left, every maximal run of
      characters of the class is replaced by \<open>repl\<close> (the quantifier is greedy and a
      match is never empty)\<close>
  "sub_runs P repl [] = []"
| "sub_runs P repl (c # cs) =
     (if P c then repl @ sub_runs P repl (dropWhile P cs) else c # sub_runs P repl cs)"
  by pat_completeness auto
termination
  by (relation "measure (\<lambda>(P, repl, s). length s)") (auto simp: less_Suc_eq_le length_dropWhile_le)

section \<open>Sanitizer\<close>

definition sanitize_title :: "string \<Rightarrow> string" where
  "sanitize_title val =
     (let sanitized = sub_runs (\<lambda>c. \<not> is_alnum c) ''_'' (strip val);
          sanitized = sub_runs (\<lambda>c. c = CHR ''_'') ''_'' sanitized;
          sanitized = strip_chars (\<lambda>c. c = CHR ''_'') sanitized
      in if upper sanitized = [] then ''UNTITLED'' else upper sanitized)"

section \<open>Document classifier\<close>

datatype error = ValueError string | KeyError string | FileNotFoundError string

definition parse_group :: "string \<Rightarrow> error + (string \<times> string)" where
  "parse_group file_stem =
     (if endswith file_stem ''_MONITORING''
        then Inr (take (length file_stem - length ''_MONITORING'') file_stem, ''monitoring'')
      else if endswith file_stem ''_PERFORMANCE''
        then Inr (take (length file_stem - length ''_PERFORMANCE'') file_stem, ''performance'')
      else Inl (ValueError (''Unable to determine category from filename: '' @ file_stem)))"


section \<open>Integers and their decimal text\<close>

definition digit_chr :: "nat \<Rightarrow> char" where
  "digit_chr d = ''0123456789'' ! (d mod 10)"

function dec_nat :: "nat \<Rightarrow> string" where
  "dec_nat n = (if n < 10 then [digit_chr n] else dec_nat (n div 10) @ [digit_chr (n mod 10)])"
  by pat_completeness auto
termination
  by (relation "measure id") auto

declare dec_nat.simps [simp del]

definition str_int :: "int \<Rightarrow> string" where
  \<comment> \<open>\<open>str(i)\<close>\<close>
  "str_int i = (if i < 0 then ''-'' @ dec_nat (nat (- i)) else dec_nat (nat i))"

definition format_03d :: "int \<Rightarrow> string" where
  \<comment> \<open>the format \<open>{i:03d}\<close>: the sign first, then zeros up to a width of three\<close>
  "format_03d i =
     (if i < 0 then ''-'' @ replicate (2 - length (dec_nat (nat (- i)))) (CHR ''0'') @ dec_nat (nat (- i))
      else replicate (3 - length (dec_nat (nat i))) (CHR ''0'') @ dec_nat (nat i))"

definition digit_val :: "char \<Rightarrow> nat" where
  "digit_val c = length (takeWhile (\<lambda>d. d \<noteq> c) ''0123456789'')"

definition nat_of_digits :: "string \<Rightarrow> nat" where
  "nat_of_digits s = foldl (\<lambda>a c. 10 * a + digit_val c) 0 s"

definition int_of_digits :: "string \<Rightarrow> int" where
  \<comment> \<open>\<open>int(s)\<close> for a text \<open>s\<close> that the class \<open>\d+\<close> matched\<close>
  "int_of_digits s = int (nat_of_digits s)"

lemma digit_val_digit_chr: "d < 10 \<Longrightarrow> digit_val (digit_chr d) = d"
proof -
  assume "d < 10"
  then have "d \<in> {0, 1, 2, 3, 4, 5, 6, 7, 8, 9}" by auto
  then show ?thesis by (auto simp: digit_val_def digit_chr_def)
qed

lemma nat_of_digits_dec_nat: "nat_of_digits (dec_nat n) = n"
proof (induction n rule: dec_nat.induct)
  case (1 n)
  show ?case
  proof (cases "n < 10")
    case True
    then show ?thesis
      by (subst dec_nat.simps) (simp add: nat_of_digits_def digit_val_digit_chr)
  next
    case False
    with 1 have "nat_of_digits (dec_nat (n div 10)) = n div 10" by simp
    with False show ?thesis
      by (subst dec_nat.simps) (simp add: nat_of_digits_def digit_val_digit_chr)
  qed
qed

lemma dec_nat_inj: "dec_nat a = dec_nat b \<Longrightarrow> a = b"
  by (metis nat_of_digits_dec_nat)

section \<open>The three patterns\<close>

text \<open>
  A match of a pattern is attempted on the text from a position on (\<open>drop pos text\<close>).
  In each pattern a greedy repetition is followed by something its class excludes, so the
  matcher takes the whole run (\<open>takeWhile\<close>); the two places where \<open>re\<close> gives characters
  back (\<open>\s*\<close> before \<open>$\<close>, \<open>\s*\<close> before \<open>[^\n]+\<close>) are written out.
\<close>

record heading_match =
  m_start :: nat
  m_end :: nat
  m_group1 :: string
  m_group2 :: string

definition match_heading :: "string \<Rightarrow> (string \<times> string \<times> nat) option" where
  \<comment> \<open>\<open>###\s+(\d+)\.\s+(.*)\<close> at the head of \<open>s\<close>: the two groups and the length of the match\<close>
  "match_heading s =
     (if take 3 s = ''###'' then
        let r1 = drop 3 s;
            ws1 = takeWhile isspace_chr r1; r2 = dropWhile isspace_chr r1;
            label = takeWhile is_digit r2; r3 = dropWhile is_digit r2
        in if ws1 \<noteq> [] \<and> label \<noteq> [] \<and> take 1 r3 = ''.'' then
             let r4 = drop 1 r3;
                 ws2 = takeWhile isspace_chr r4; r5 = dropWhile isspace_chr r4;
                 ttl = takeWhile (\<lambda>c. c \<noteq> newline) r5
             in if ws2 \<noteq> []
                then Some (label, ttl, 3 + length ws1 + length label + 1 + length ws2 + length ttl)
                else None
           else None
      else None)"

definition at_line_start :: "string \<Rightarrow> nat \<Rightarrow> bool" where
  \<comment> \<open>\<open>^\<close> under \<open>re.MULTILINE\<close>: the start of the text, or just after a line feed\<close>
  "at_line_start text pos = (pos = 0 \<or> text ! (pos - 1) = newline)"

lemma match_heading_length:
  "match_heading s = Some (g1, g2, n) \<Longrightarrow> 0 < n \<and> n \<le> length s"
proof -
  assume a: "match_heading s = Some (g1, g2, n)"
  define r1 where "r1 = drop 3 s"
  define r2 where "r2 = dropWhile isspace_chr r1"
  define r3 where "r3 = dropWhile is_digit r2"
  define r4 where "r4 = drop 1 r3"
  define r5 where "r5 = dropWhile isspace_chr r4"
  from a have p: "take 3 s = ''###''" and q: "take 1 r3 = ''.''"
    and n: "n = 3 + length (takeWhile isspace_chr r1) + length (takeWhile is_digit r2) + 1
               + length (takeWhile isspace_chr r4) + length (takeWhile (\<lambda>c. c \<noteq> newline) r5)"
    by (auto simp: match_heading_def Let_def r1_def r2_def r3_def r4_def r5_def split: if_splits)
  from p have l3: "3 \<le> length s" by (cases "3 \<le> length s") auto
  from q have l1: "1 \<le> length r3" by (cases r3) auto
  have e1: "length s = 3 + length r1" using l3 by (simp add: r1_def)
  have e2: "length r1 = length (takeWhile isspace_chr r1) + length r2"
    unfolding r2_def by (metis length_append takeWhile_dropWhile_id)
  have e3: "length r2 = length (takeWhile is_digit r2) + length r3"
    unfolding r3_def by (metis length_append takeWhile_dropWhile_id)
  have e4: "length r3 = 1 + length r4" using l1 by (simp add: r4_def)
  have e5: "length r4 = length (takeWhile isspace_chr r4) + length r5"
    unfolding r5_def by (metis length_append takeWhile_dropWhile_id)
  have e6: "length (takeWhile (\<lambda>c. c \<noteq> newline) r5) \<le> length r5"
    by (rule length_takeWhile_le)
  show ?thesis using n e1 e2 e3 e4 e5 e6 by simp
qed

function heading_finditer :: "string \<Rightarrow> nat \<Rightarrow> heading_match list" where
  \<comment> \<open>\<open>ISSUE_HEADING_PATTERN.finditer(text)\<close>, scanning from \<open>pos\<close>: the matches from the
      left, each search starting where the last match ended\<close>
  "heading_finditer text pos =
     (if length text < pos then []
      else if at_line_start text pos then
        (case match_heading (drop pos text) of
           Some (g1, g2, n) \<Rightarrow>
             \<lparr>m_start = pos, m_end = pos + n, m_group1 = g1, m_group2 = g2\<rparr>
               # heading_finditer text (pos + n)
         | None \<Rightarrow> heading_finditer text (pos + 1))
      else heading_finditer text (pos + 1))"
  by pat_completeness auto
termination
proof (relation "measure (\<lambda>(text, pos). Suc (length text) - pos)")
  fix doc :: string and pos :: nat and x2 :: "string \<times> string \<times> nat"
    and g1 :: string and y :: "string \<times> nat" and g2 :: string and n :: nat
  assume "\<not> length doc < pos" "match_heading (drop pos doc) = Some x2"
    "(g1, y) = x2" "(g2, n) = y"
  then have "match_heading (drop pos doc) = Some (g1, g2, n)" by simp
  from match_heading_length [OF this] have "0 < n" by simp
  with \<open>\<not> length doc < pos\<close>
  show "((doc, pos + n), (doc, pos)) \<in> measure (\<lambda>(text, pos). Suc (length text) - pos)"
    by simp
qed auto

declare heading_finditer.simps [simp del]

definition match_trailing_rule :: "string \<Rightarrow> nat option" where
  \<comment> \<open>\<open>\n*---\s*$\<close> under \<open>re.MULTILINE\<close> at the head of \<open>s\<close>: the length of the match.
      \<open>$\<close> holds at the end of the text and just before a line feed, so \<open>\s*\<close> takes
      the whole run of white space when the run reaches the end of the text, and otherwise
      gives characters back up to the last line feed of the run.\<close>
  "match_trailing_rule s =
     (let nls = takeWhile (\<lambda>c. c = newline) s; r1 = dropWhile (\<lambda>c. c = newline) s
      in if take 3 r1 = ''---'' then
           let r2 = drop 3 r1;
               ws = takeWhile isspace_chr r2; r3 = dropWhile isspace_chr r2
           in if r3 = [] then Some (length nls + 3 + length ws)
              else if newline \<in> set ws
                then Some (length nls + 3
                       + (length ws - 1 - length (takeWhile (\<lambda>c. c \<noteq> newline) (rev ws))))
              else None
         else None)"

lemma match_trailing_rule_length:
  "match_trailing_rule s = Some n \<Longrightarrow> 0 < n"
  by (auto simp: match_trailing_rule_def Let_def split: if_splits)

function sub_trailing_rule :: "string \<Rightarrow> string" where
  \<comment> \<open>\<open>TRAILING_RULE_PATTERN.sub("", s)\<close>: every match, found from the left, is deleted\<close>
  "sub_trailing_rule [] = []"
| "sub_trailing_rule (c # cs) =
     (case match_trailing_rule (c # cs) of
        Some n \<Rightarrow> sub_trailing_rule (drop n (c # cs))
      | None \<Rightarrow> c # sub_trailing_rule cs)"
  by pat_completeness auto
termination
proof (relation "measure length")
  fix c :: char and cs :: string and n :: nat
  assume "match_trailing_rule (c # cs) = Some n"
  from match_trailing_rule_length [OF this]
  show "(drop n (c # cs), c # cs) \<in> measure length" by simp
qed auto

definition match_priority :: "string \<Rightarrow> string option" where
  \<comment> \<open>\<open>\*\*(?:Priority|Severity):\*\*\s*([^\n]+)\<close> at the head of \<open>s\<close>: the group.
      \<open>\s*\<close> takes the whole run of white space; when the run reaches the end of the text
      it gives characters back until the group can start, at the last character of the
      run that is not a line feed.\<close>
  "match_priority s =
     (if take 13 s = ''**Priority:**'' \<or> take 13 s = ''**Severity:**'' then
        let r1 = drop 13 s;
            ws = takeWhile isspace_chr r1; r2 = dropWhile isspace_chr r1
        in if r2 \<noteq> [] then Some (takeWhile (\<lambda>c. c \<noteq> newline) r2)
           else (case dropWhile (\<lambda>c. c = newline) (rev ws) of
                   [] \<Rightarrow> None
                 | c # _ \<Rightarrow> Some [c])
      else None)"

fun search_priority :: "string \<Rightarrow> string option" where
  \<comment> \<open>\<open>PRIORITY_PATTERN.search(s)\<close>: the group of the first match from the left\<close>
  "search_priority [] = None"
| "search_priority (c # cs) =
     (case match_priority (c # cs) of
        Some g \<Rightarrow> Some g
      | None \<Rightarrow> search_priority cs)"

section \<open>Issues and the record serializer\<close>

record issue =
  title :: string
  source_issue_index :: int
  group :: string
  category :: string
  sequence :: int
  source_path :: string
  body :: string
  priority :: "string option"
  status :: string
  extra_frontmatter :: "(string \<times> string) list"

text \<open>
  A \<open>dict\<close> keeps its keys in insertion order; \<open>fields.update(extra)\<close> overwrites the value
  of a key already present, in place, and appends the others: \<open>AList.update\<close>, entry by
  entry. Paths are relative to \<open>ROOT\<close>.
\<close>

definition escape :: "string \<Rightarrow> string" where
  \<comment> \<open>\<open>value.replace("\"", "\\\"")\<close>\<close>
  "escape v = concat (map (\<lambda>c. if c = CHR 0x22 then [CHR 0x5C, CHR 0x22] else [c]) v)"

definition frontmatter_lines :: "issue \<Rightarrow> string list" where
  "frontmatter_lines self =
     (let fields = [
            (''title'', title self),
            (''group'', group self),
            (''category'', category self),
            (''priority'', (case priority self of None \<Rightarrow> [] | Some p \<Rightarrow> p)),
            (''status'', status self),
            (''source'', source_path self),
            (''issue_index'', str_int (source_issue_index self)),
            (''sequence'', str_int (sequence self))];
          fields = foldl (\<lambda>d (k, v). AList.update k v d) fields (extra_frontmatter self)
      in [''---''] @ map (\<lambda>(key, v). key @ '': '' @ [CHR 0x22] @ escape v @ [CHR 0x22]) fields
           @ [''---''])"

definition document :: "issue \<Rightarrow> string" where
  "document self =
     (let frontmatter = join [newline] (frontmatter_lines self);
          body = rstrip (body self) @ [newline]
      in frontmatter @ [newline, newline] @ body)"

section \<open>Issue extractor\<close>

datatype log_record = Warning string | Info string

definition path_name :: "string \<Rightarrow> string" where
  \<comment> \<open>\<open>Path.name\<close>: the last component\<close>
  "path_name p = rev (takeWhile (\<lambda>c. c \<noteq> CHR ''/'') (rev p))"

definition path_stem :: "string \<Rightarrow> string" where
  \<comment> \<open>\<open>Path.stem\<close>: with \<open>i = name.rfind('.')\<close>, \<open>name[:i]\<close> when \<open>0 < i < len(name) - 1\<close>,
      the name otherwise\<close>
  "path_stem p =
     (let name = path_name p
      in if CHR ''.'' \<in> set name then
           let i = length name - 1 - length (takeWhile (\<lambda>c. c \<noteq> CHR ''.'') (rev name))
           in if 0 < i \<and> i < length name - 1 then take i name else name
         else name)"

definition section_end :: "string \<Rightarrow> heading_match list \<Rightarrow> nat \<Rightarrow> nat" where
  \<comment> \<open>\<open>matches[idx + 1].start() if idx + 1 < len(matches) else len(text)\<close>\<close>
  "section_end text matches idx =
     (if idx + 1 < length matches then m_start (matches ! (idx + 1)) else length text)"

definition raw_section :: "string \<Rightarrow> heading_match list \<Rightarrow> nat \<Rightarrow> string" where
  \<comment> \<open>\<open>text[start:end]\<close> of the loop body, before it is stripped\<close>
  "raw_section text matches idx =
     slice (m_end (matches ! idx)) (section_end text matches idx) text"

definition trim_section :: "string \<Rightarrow> string" where
  \<comment> \<open>the two assignments to \<open>section\<close>: strip, delete the rule matches, strip\<close>
  "trim_section raw = strip (sub_trailing_rule (strip raw))"

definition issue_of_match ::
  "string \<Rightarrow> string \<Rightarrow> string \<Rightarrow> string \<Rightarrow> heading_match list \<Rightarrow> nat \<Rightarrow> issue" where
  \<comment> \<open>the body of the loop \<open>for idx, match in enumerate(matches)\<close>\<close>
  "issue_of_match src text grp cat matches idx =
     (let m = matches ! idx;
          issue_index = int_of_digits (m_group1 m);
          ttl = strip (m_group2 m);
          sect = trim_section (raw_section text matches idx);
          prio = (case search_priority sect of None \<Rightarrow> None | Some g \<Rightarrow> Some (strip g));
          body_lines = [''## '' @ ttl, [], sect];
          bdy = join [newline] (filter (\<lambda>line. line \<noteq> []) body_lines) @ [newline]
      in \<lparr>title = ttl, source_issue_index = issue_index, group = grp, category = cat,
          sequence = 0, source_path = src, body = bdy, priority = prio,
          status = ''pending'', extra_frontmatter = []\<rparr>)"

definition extract_issues :: "string \<Rightarrow> string \<Rightarrow> log_record list \<times> (error + issue list)" where
  \<comment> \<open>\<open>extract_issues(source_path)\<close>, with \<open>text\<close> the value of \<open>source_path.read_text()\<close>;
      the result is the log records written and the list returned or the exception raised\<close>
  "extract_issues src text =
     (let matches = heading_finditer text 0
      in if matches = [] then ([Warning (''No issues found in '' @ src)], Inr [])
         else (case parse_group (path_stem src) of
                 Inl e \<Rightarrow> ([], Inl e)
               | Inr (grp, cat) \<Rightarrow>
                   ([], Inr (map (issue_of_match src text grp cat matches) [0..<length matches]))))"

section \<open>Sequencer and namer\<close>

text \<open>
  The destination is a finite store of files, path to content, in the order of creation.
  \<open>counters\<close> is the dictionary of the run, category to last sequence number.
\<close>

type_synonym filesystem = "(string \<times> string) list"

definition path_exists :: "filesystem \<Rightarrow> string \<Rightarrow> bool" where
  "path_exists fs p = (map_of fs p \<noteq> None)"

definition write_text :: "filesystem \<Rightarrow> string \<Rightarrow> string \<Rightarrow> filesystem" where
  \<comment> \<open>\<open>Path.write_text\<close>: creates the file, or replaces its content\<close>
  "write_text fs p content = AList.update p content fs"

definition dict_get :: "(string \<rightharpoonup> int) \<Rightarrow> string \<Rightarrow> int \<Rightarrow> int" where
  \<comment> \<open>\<open>counters.get(key, default)\<close>\<close>
  "dict_get counters key dflt = (case counters key of None \<Rightarrow> dflt | Some n \<Rightarrow> n)"

definition generate_filename ::
  "issue \<Rightarrow> (string \<rightharpoonup> int) \<Rightarrow> issue \<times> (string \<rightharpoonup> int) \<times> string \<times> string" where
  \<comment> \<open>returns the issue and the counters as the call leaves them, then the two results\<close>
  "generate_filename iss counters =
     (let counters = counters(category iss \<mapsto> dict_get counters (category iss) 0 + 1);
          sequence = dict_get counters (category iss) 0;
          iss = iss\<lparr>sequence := sequence\<rparr>;
          prefix = format_03d sequence;
          title_part = sanitize_title (title iss);
          base_name = prefix @ ''_'' @ group iss @ ''_'' @ title_part;
          filename = base_name @ ''.md''
      in (iss, counters, base_name, filename))"

definition suffixed_path :: "string \<Rightarrow> string \<Rightarrow> nat \<Rightarrow> string" where
  \<comment> \<open>\<open>destination_dir / f"{base_name}_{suffix}.md"\<close>\<close>
  "suffixed_path destination_dir base_name suffix =
     destination_dir @ ''/'' @ base_name @ ''_'' @ str_int (int suffix) @ ''.md''"

lemma suffixed_path_inj: "suffixed_path d b j = suffixed_path d b k \<Longrightarrow> j = k"
  by (auto simp: suffixed_path_def str_int_def dest: dec_nat_inj)

lemma finite_taken_suffixes: "finite {k. path_exists fs (suffixed_path d b k)}"
proof -
  have "{k. path_exists fs (suffixed_path d b k)} \<subseteq> suffixed_path d b -` (fst ` set fs)"
    by (force simp: path_exists_def dest!: map_of_SomeD)
  moreover have "finite (suffixed_path d b -` (fst ` set fs))"
    by (rule finite_vimageI) (auto simp: inj_on_def dest: suffixed_path_inj)
  ultimately show ?thesis by (rule finite_subset)
qed

function collision_loop :: "filesystem \<Rightarrow> string \<Rightarrow> string \<Rightarrow> string \<Rightarrow> nat \<Rightarrow> string" where
  \<comment> \<open>the loop \<open>while target_path.exists()\<close> of \<open>write_issue\<close>, from the state
      \<open>(target_path, suffix)\<close>: the path it leaves in \<open>target_path\<close>\<close>
  "collision_loop fs destination_dir base_name target_path suffix =
     (if path_exists fs target_path
      then collision_loop fs destination_dir base_name
             (suffixed_path destination_dir base_name suffix) (suffix + 1)
      else target_path)"
  by pat_completeness auto
termination
proof (relation "measure (\<lambda>(fs, d, b, target, suffix).
         card {k. suffix \<le> k \<and> path_exists fs (suffixed_path d b k)}
         + (if path_exists fs target then 1 else 0))")
  fix fs :: filesystem and d b target :: string and suffix :: nat
  assume ex: "path_exists fs target"
  let ?E = "\<lambda>k. path_exists fs (suffixed_path d b k)"
  have fin: "finite {k. suffix + 1 \<le> k \<and> ?E k}"
    by (rule finite_subset [OF _ finite_taken_suffixes [of fs d b]]) auto
  have split: "{k. suffix \<le> k \<and> ?E k}
       = (if ?E suffix then {suffix} else {}) \<union> {k. suffix + 1 \<le> k \<and> ?E k}"
    by (auto simp: Suc_le_eq le_less)
  have "card {k. suffix \<le> k \<and> ?E k}
       = (if ?E suffix then 1 else 0) + card {k. suffix + 1 \<le> k \<and> ?E k}"
    unfolding split using fin by simp
  with ex show "((fs, d, b, suffixed_path d b suffix, suffix + 1), (fs, d, b, target, suffix))
      \<in> measure (\<lambda>(fs, d, b, target, suffix).
           card {k. suffix \<le> k \<and> path_exists fs (suffixed_path d b k)}
           + (if path_exists fs target then 1 else 0))"
    by simp
qed simp

declare collision_loop.simps [simp del]

definition write_issue ::
  "issue \<Rightarrow> string \<Rightarrow> (string \<rightharpoonup> int) \<Rightarrow> filesystem
     \<Rightarrow> log_record list \<times> issue \<times> (string \<rightharpoonup> int) \<times> filesystem" where
  \<comment> \<open>returns the log record written, then the issue, the counters and the destination
      as the call leaves them\<close>
  "write_issue iss destination_dir counters fs =
     (case generate_filename iss counters of (iss, counters, base_name, filename) \<Rightarrow>
        let target_path = destination_dir @ ''/'' @ filename;
            target_path = collision_loop fs destination_dir base_name target_path 1
        in ([Info (''Writing '' @ target_path)], iss, counters,
            write_text fs target_path (document iss)))"

section \<open>Pipeline driver\<close>

definition dest_dirs :: "(string \<times> string) list" where
  \<comment> \<open>the dictionary that \<open>ensure_destination_dirs\<close> returns\<close>
  "dest_dirs = [(''monitoring'', ''ai-docs/reviews/monitoring''),
                (''performance'', ''ai-docs/reviews/performance'')]"

fun extract_all :: "(string \<times> string) list \<Rightarrow> log_record list \<times> (error + issue list)" where
  \<comment> \<open>the first loop of \<open>main\<close>, over the source files (path and text); an exception ends it\<close>
  "extract_all [] = ([], Inr [])"
| "extract_all ((src, text) # rest) =
     (case extract_issues src text of
        (lg, Inl e) \<Rightarrow> (lg, Inl e)
      | (lg, Inr extracted) \<Rightarrow>
          (case extract_all rest of
             (lg', Inl e) \<Rightarrow> (lg @ lg', Inl e)
           | (lg', Inr others) \<Rightarrow> (lg @ lg', Inr (extracted @ others))))"

fun write_all ::
  "issue list \<Rightarrow> (string \<rightharpoonup> int) \<Rightarrow> filesystem
     \<Rightarrow> (log_record list \<times> issue list \<times> (string \<rightharpoonup> int) \<times> filesystem) \<times> error option" where
  \<comment> \<open>the second loop of \<open>main\<close>: the log, the issues written, the counters and the
      destination when the loop ends, and the exception if one ended it
      (\<open>dest_dirs[issue.category]\<close> raises \<open>KeyError\<close> for a category that is not a key)\<close>
  "write_all [] counters fs = (([], [], counters, fs), None)"
| "write_all (iss # rest) counters fs =
     (case map_of dest_dirs (category iss) of
        None \<Rightarrow> (([], [], counters, fs), Some (KeyError (category iss)))
      | Some destination_dir \<Rightarrow>
          (case write_issue iss destination_dir counters fs of (lg, iss', counters', fs') \<Rightarrow>
             (case write_all rest counters' fs' of ((lg', written, counters'', fs''), err) \<Rightarrow>
                ((lg @ lg', iss' # written, counters'', fs''), err))))"

definition main ::
  "(string \<times> string) list option \<Rightarrow> filesystem
     \<Rightarrow> (log_record list \<times> issue list \<times> (string \<rightharpoonup> int) \<times> filesystem) \<times> error option" where
  \<comment> \<open>\<open>source_files\<close> is \<open>None\<close> when \<open>SOURCE_DIR\<close> does not exist, and otherwise the
      files of \<open>sorted(SOURCE_DIR.glob("*.md"))\<close>, each with its text. The result is the
      log, the issues written (with their sequence numbers), the counters and the
      destination at the end of the run, and the exception if one ended the run.\<close>
  "main source_files fs =
     (case source_files of
        None \<Rightarrow> (([], [], Map.empty, fs),
                 Some (FileNotFoundError ''Source directory not found: tasks/reviews''))
      | Some files \<Rightarrow>
          (case extract_all files of
             (lg, Inl e) \<Rightarrow> ((lg, [], Map.empty, fs), Some e)
           | (lg, Inr all_issues) \<Rightarrow>
               (case write_all all_issues Map.empty fs of ((lg', written, counters, fs'), err) \<Rightarrow>
                  ((lg @ lg', written, counters, fs'), err))))"

section \<open>Predicates and readers used in the statements\<close>

text \<open>\<open>no_double s\<close>: no two underscores are adjacent in \<open>s\<close>.\<close>

fun no_double :: "string \<Rightarrow> bool" where
  "no_double [] = True"
| "no_double [c] = True"
| "no_double (a # b # cs) = (\<not> (a = CHR ''_'' \<and> b = CHR ''_'') \<and> no_double (b # cs))"

text \<open>
  The field of the specification, written from its words: the label \<open>**Priority:**\<close> or
  \<open>**Severity:**\<close> (bold, with its colon), then free text to the end of the line, that is
  the rest of the label's own line, which must hold a character that is not white space.
  \<open>spec_search_priority\<close> is the priority the specification's words give: the stripped
  text of the first such field, or none.
\<close>

definition spec_priority_field :: "string \<Rightarrow> string option" where
  "spec_priority_field s =
     (if take 13 s = ''**Priority:**'' \<or> take 13 s = ''**Severity:**'' then
        let v = takeWhile (\<lambda>c. c \<noteq> newline) (drop 13 s)
        in if \<exists>c \<in> set v. \<not> isspace_chr c then Some v else None
      else None)"

fun spec_search_priority :: "string \<Rightarrow> string option" where
  "spec_search_priority [] = None"
| "spec_search_priority (c # cs) =
     (case spec_priority_field (c # cs) of
        Some v \<Rightarrow> Some (strip v)
      | None \<Rightarrow> spec_search_priority cs)"

text \<open>
  The field as \<open>PRIORITY_PATTERN\<close> matches it, for the statement of what the code does:
  at position \<open>p\<close> of the section stands the label, then white space, then the text
  \<open>g\<close>, which starts with a character that is not white space and runs to the end of its
  line. The white space may hold line feeds: after a label that ends its line the text is
  that of the next line that is not blank.
\<close>

definition priority_field_at :: "string \<Rightarrow> nat \<Rightarrow> string \<Rightarrow> bool" where
  "priority_field_at s p g =
     (\<exists>label ws rest.
        (label = ''**Priority:**'' \<or> label = ''**Severity:**'')
        \<and> drop p s = label @ ws @ g @ rest
        \<and> (\<forall>c \<in> set ws. isspace_chr c)
        \<and> g \<noteq> [] \<and> \<not> isspace_chr (hd g) \<and> newline \<notin> set g
        \<and> (rest = [] \<or> hd rest = newline))"

text \<open>
  The reader of the metadata block is not part of the program. It is written here from the
  words of the specification: the document is split at line feeds; the block is the lines
  between the first line, which must be \<open>---\<close>, and the next line \<open>---\<close>; a line of
  the form \<open>key: "value"\<close> gives the key (the text before the first colon, space, quote)
  and the value with every backslash-quote turned back into a quote; other lines are
  skipped; a key is looked up at its first line. An empty priority text reads as an absent
  priority, and a decimal text as its integer.
  \<open>render_field\<close> and \<open>standard_fields\<close> name the line and the first dictionary of
  \<open>frontmatter_lines\<close>.
\<close>

fun spec_split_lines :: "string \<Rightarrow> string list" where
  "spec_split_lines [] = [[]]"
| "spec_split_lines (c # cs) =
     (if c = newline then [] # spec_split_lines cs
      else (case spec_split_lines cs of [] \<Rightarrow> [[c]] | l # ls \<Rightarrow> (c # l) # ls))"

fun spec_unescape :: "string \<Rightarrow> string" where
  "spec_unescape (a # b # cs) =
     (if a = CHR 0x5C \<and> b = CHR 0x22 then CHR 0x22 # spec_unescape cs
      else a # spec_unescape (b # cs))"
| "spec_unescape cs = cs"

fun spec_split_key :: "string \<Rightarrow> (string \<times> string) option" where
  "spec_split_key [] = None"
| "spec_split_key (c # cs) =
     (if take 3 (c # cs) = [CHR '':'', CHR '' '', CHR 0x22] then Some ([], drop 3 (c # cs))
      else (case spec_split_key cs of None \<Rightarrow> None | Some (k, r) \<Rightarrow> Some (c # k, r)))"

definition spec_parse_field :: "string \<Rightarrow> (string \<times> string) option" where
  "spec_parse_field line =
     (case spec_split_key line of
        None \<Rightarrow> None
      | Some (k, r) \<Rightarrow>
          if r \<noteq> [] \<and> last r = CHR 0x22 then Some (k, spec_unescape (butlast r)) else None)"

definition spec_parse_metadata :: "string \<Rightarrow> (string \<times> string) list option" where
  "spec_parse_metadata doc =
     (case spec_split_lines doc of
        [] \<Rightarrow> None
      | first # rest \<Rightarrow>
          if first = ''---'' \<and> ''---'' \<in> set rest
          then Some (List.map_filter spec_parse_field (takeWhile (\<lambda>l. l \<noteq> ''---'') rest))
          else None)"

definition spec_int_of_str :: "string \<Rightarrow> int" where
  "spec_int_of_str s =
     (if take 1 s = ''-'' then - int (nat_of_digits (drop 1 s)) else int (nat_of_digits s))"

definition spec_priority_of_text :: "string \<Rightarrow> string option" where
  "spec_priority_of_text s = (if s = [] then None else Some s)"

definition render_field :: "string \<times> string \<Rightarrow> string" where
  "render_field = (\<lambda>(key, v). key @ '': '' @ [CHR 0x22] @ escape v @ [CHR 0x22])"

definition standard_fields :: "issue \<Rightarrow> (string \<times> string) list" where
  "standard_fields self =
     [(''title'', title self),
      (''group'', group self),
      (''category'', category self),
      (''priority'', (case priority self of None \<Rightarrow> [] | Some p \<Rightarrow> p)),
      (''status'', status self),
      (''source'', source_path self),
      (''issue_index'', str_int (source_issue_index self)),
      (''sequence'', str_int (sequence self))]"

section \<open>Facts about the classifier, the extractor and the driver\<close>

lemma endswith_append: "endswith s suffix \<longleftrightarrow> (\<exists>g. s = g @ suffix)"
proof
  assume "endswith s suffix"
  then have "s = take (length s - length suffix) s @ suffix"
    by (metis append_take_drop_id endswith_def)
  then show "\<exists>g. s = g @ suffix" ..
next
  assume "\<exists>g. s = g @ suffix"
  then show "endswith s suffix" by (auto simp: endswith_def)
qed

lemma parse_group_category:
  "parse_group stem = Inr (g, c) \<Longrightarrow> c = ''monitoring'' \<or> c = ''performance''"
  by (auto simp: parse_group_def split: if_splits)

lemma issue_of_match_fields:
  "source_path (issue_of_match src text g c ms k) = src"
  "group (issue_of_match src text g c ms k) = g"
  "category (issue_of_match src text g c ms k) = c"
  "sequence (issue_of_match src text g c ms k) = 0"
  "extra_frontmatter (issue_of_match src text g c ms k) = []"
  "status (issue_of_match src text g c ms k) = ''pending''"
  by (simp_all add: issue_of_match_def Let_def)

lemma extract_issues_Inr:
  assumes "extract_issues src text = (lg, Inr issues)" and "i \<in> set issues"
  shows "\<exists>g c k. parse_group (path_stem src) = Inr (g, c) \<and> heading_finditer text 0 \<noteq> []
           \<and> k < length (heading_finditer text 0)
           \<and> i = issue_of_match src text g c (heading_finditer text 0) k"
  using assms
  by (fastforce simp: extract_issues_def Let_def split: if_splits sum.splits)

lemma extract_issues_Inl:
  "heading_finditer text 0 \<noteq> [] \<Longrightarrow> parse_group (path_stem src) = Inl e \<Longrightarrow>
     extract_issues src text = ([], Inl e)"
  by (simp add: extract_issues_def Let_def)

lemma extract_issues_error:
  "extract_issues src text = (lg, Inl e) \<Longrightarrow> \<exists>m. e = ValueError m"
  by (auto simp: extract_issues_def Let_def parse_group_def split: if_splits sum.splits)

lemma extract_all_Inr:
  "extract_all files = (lg, Inr all_issues) \<Longrightarrow> i \<in> set all_issues \<Longrightarrow>
     \<exists>src text lg' issues. (src, text) \<in> set files
        \<and> extract_issues src text = (lg', Inr issues) \<and> i \<in> set issues"
proof (induction files arbitrary: lg all_issues)
  case Nil
  then show ?case by simp
next
  case (Cons f files)
  obtain src doc where f: "f = (src, doc)" by (cases f)
  from Cons.prems(1) obtain lg1 ex lg2 others where
    e1: "extract_issues src doc = (lg1, Inr ex)" and
    e2: "extract_all files = (lg2, Inr others)" and
    a: "all_issues = ex @ others"
    by (auto simp: f split: prod.splits sum.splits)
  from Cons.prems(2) a consider "i \<in> set ex" | "i \<in> set others" by auto
  then show ?case
  proof cases
    case 1
    with e1 f show ?thesis by auto
  next
    case 2
    from Cons.IH [OF e2 2] show ?thesis by auto
  qed
qed

lemma extract_all_Inl:
  "(src, text) \<in> set files \<Longrightarrow> extract_issues src text = (lg, Inl e) \<Longrightarrow>
     \<exists>lg' e'. extract_all files = (lg', Inl e')"
proof (induction files)
  case Nil
  then show ?case by simp
next
  case (Cons f files)
  obtain s t where f: "f = (s, t)" by (cases f)
  show ?case
  proof (cases "(src, text) = f")
    case True
    with Cons.prems f show ?thesis by simp
  next
    case False
    with Cons have "\<exists>lg' e'. extract_all files = (lg', Inl e')" by simp
    then show ?thesis by (auto simp: f split: prod.splits sum.splits)
  qed
qed

lemma extract_all_error:
  "extract_all files = (lg, Inl e) \<Longrightarrow> \<exists>m. e = ValueError m"
proof (induction files arbitrary: lg)
  case Nil
  then show ?case by simp
next
  case (Cons f files)
  obtain s t where f: "f = (s, t)" by (cases f)
  from Cons show ?case
    by (auto simp: f split: prod.splits sum.splits dest: extract_issues_error)
qed

lemma write_issue_fields:
  assumes "write_issue iss d c fs = (lg, iss', c', fs')"
  shows "iss' = iss\<lparr>sequence := sequence iss'\<rparr>"
  using assms by (auto simp: write_issue_def generate_filename_def Let_def)

lemma write_all_written:
  "write_all all_issues c fs = ((lg, written, c', fs'), err) \<Longrightarrow>
     length written \<le> length all_issues
     \<and> (\<forall>k < length written. written ! k = (all_issues ! k)\<lparr>sequence := sequence (written ! k)\<rparr>)"
proof (induction all_issues arbitrary: c fs lg written c' fs' err)
  case Nil
  then show ?case by simp
next
  case (Cons iss rest)
  show ?case
  proof (cases "map_of dest_dirs (category iss)")
    case None
    with Cons.prems show ?thesis by simp
  next
    case (Some d)
    obtain lg1 iss1 c1 fs1 where w: "write_issue iss d c fs = (lg1, iss1, c1, fs1)"
      by (cases "write_issue iss d c fs") auto
    obtain lg2 wr2 c2 fs2 err2 where r: "write_all rest c1 fs1 = ((lg2, wr2, c2, fs2), err2)"
      by (cases "write_all rest c1 fs1") auto
    from Cons.prems Some w r have wr: "written = iss1 # wr2" by simp
    from Cons.IH [OF r] have ih: "length wr2 \<le> length rest"
      "\<forall>k < length wr2. wr2 ! k = (rest ! k)\<lparr>sequence := sequence (wr2 ! k)\<rparr>" by auto
    from write_issue_fields [OF w] have h: "iss1 = iss\<lparr>sequence := sequence iss1\<rparr>" .
    show ?thesis
    proof (intro conjI allI impI)
      show "length written \<le> length (iss # rest)" using wr ih(1) by simp
    next
      fix k assume "k < length written"
      then show "written ! k = ((iss # rest) ! k)\<lparr>sequence := sequence (written ! k)\<rparr>"
        using wr ih(2) h by (cases k) auto
    qed
  qed
qed

section \<open>The shape of sanitized titles\<close>

lemma is_alnum_not_underscore: "is_alnum c \<Longrightarrow> c \<noteq> CHR ''_''"
  by (auto simp: is_alnum_def is_ascii_upper_def is_ascii_lower_def is_digit_def)

lemma upper_chr_alnum: "is_alnum c \<Longrightarrow> is_ascii_upper (upper_chr c) \<or> is_digit (upper_chr c)"
  unfolding is_alnum_def is_ascii_upper_def is_ascii_lower_def is_digit_def
  by (auto simp: upper_chr_def)

lemma upper_chr_underscore: "upper_chr c = CHR ''_'' \<longleftrightarrow> c = CHR ''_''"
proof (cases "map_of (zip ''abcdefghijklmnopqrstuvwxyz'' ''ABCDEFGHIJKLMNOPQRSTUVWXYZ'') c")
  case None
  then show ?thesis by (auto simp: upper_chr_def)
next
  case (Some u)
  then have "u \<in> set ''ABCDEFGHIJKLMNOPQRSTUVWXYZ''"
    by (meson map_of_SomeD set_zip_rightD)
  then have "u \<noteq> CHR ''_''" by auto
  moreover from Some have "c \<noteq> CHR ''_''" by auto
  ultimately show ?thesis using Some by (simp add: upper_chr_def)
qed

lemma set_sub_runs: "set (sub_runs P repl s) \<subseteq> {c \<in> set s. \<not> P c} \<union> set repl"
proof (induction P repl s rule: sub_runs.induct)
  case (1 P repl)
  then show ?case by simp
next
  case (2 P repl c cs)
  show ?case
  proof (cases "P c")
    case True
    have "set (dropWhile P cs) \<subseteq> set cs" by (rule set_dropWhileD [THEN subsetI]) 
    with 2(1) [OF True] True show ?thesis by auto
  next
    case False
    with 2(2) [OF False] show ?thesis by auto
  qed
qed

lemma hd_sub_runs: "s \<noteq> [] \<Longrightarrow> \<not> P (hd s) \<Longrightarrow> hd (sub_runs P repl s) = hd s \<and> sub_runs P repl s \<noteq> []"
  by (cases s) auto

lemma no_double_Cons: "no_double s \<Longrightarrow> (s \<noteq> [] \<longrightarrow> hd s \<noteq> CHR ''_'') \<or> a \<noteq> CHR ''_'' \<Longrightarrow> no_double (a # s)"
  by (cases s) auto

lemma no_double_sub_runs: "P (CHR ''_'') \<Longrightarrow> no_double (sub_runs P ''_'' s)"
proof (induction P "''_''" s rule: sub_runs.induct)
  case (1 P)
  then show ?case by simp
next
  case (2 P c cs)
  show ?case
  proof (cases "P c")
    case True
    let ?r = "dropWhile P cs"
    have ih: "no_double (sub_runs P ''_'' ?r)" using 2(1) [OF True] 2(3) by simp
    have "sub_runs P ''_'' ?r \<noteq> [] \<longrightarrow> hd (sub_runs P ''_'' ?r) \<noteq> CHR ''_''"
    proof (cases "?r = []")
      case True
      then show ?thesis by (metis sub_runs.simps(1))
    next
      case False
      then have "\<not> P (hd ?r)" by (rule hd_dropWhile)
      with False hd_sub_runs [of ?r P "''_''"] 2(3) show ?thesis by auto
    qed
    with ih True show ?thesis by (simp add: no_double_Cons)
  next
    case False
    with 2(3) have "c \<noteq> CHR ''_''" by auto
    with 2(2) [OF False] 2(3) False show ?thesis by (simp add: no_double_Cons)
  qed
qed

lemma no_double_append: "no_double (xs @ ys) \<Longrightarrow> no_double xs \<and> no_double ys"
proof (induction xs rule: no_double.induct)
  case 1
  then show ?case by simp
next
  case (2 c)
  then show ?case by (cases ys) auto
next
  case (3 a b cs)
  then show ?case by auto
qed

lemma strip_chars_infix: "\<exists>a b. s = a @ strip_chars P s @ b"
proof -
  let ?t = "dropWhile P s"
  have "s = takeWhile P s @ ?t" by simp
  moreover have "?t = rev (dropWhile P (rev ?t)) @ rev (takeWhile P (rev ?t))"
    by (metis rev_append rev_rev_ident takeWhile_dropWhile_id)
  ultimately have "s = takeWhile P s @ strip_chars P s @ rev (takeWhile P (rev ?t))"
    by (metis strip_chars_def)
  then show ?thesis by blast
qed

lemma strip_chars_ends:
  "strip_chars P s \<noteq> [] \<Longrightarrow> \<not> P (hd (strip_chars P s)) \<and> \<not> P (last (strip_chars P s))"
proof -
  assume ne: "strip_chars P s \<noteq> []"
  let ?t = "dropWhile P s"
  let ?u = "dropWhile P (rev ?t)"
  from ne have u: "?u \<noteq> []" by (simp add: strip_chars_def)
  then have l: "\<not> P (hd ?u)" by (rule hd_dropWhile)
  have last: "last (strip_chars P s) = hd ?u" using u by (simp add: strip_chars_def last_rev)
  from u have t: "?t \<noteq> []" by (metis dropWhile.simps(1) rev.simps(1))
  then have h: "\<not> P (hd ?t)" by (rule hd_dropWhile)
  have "?t = rev ?u @ rev (takeWhile P (rev ?t))"
    by (metis rev_append rev_rev_ident takeWhile_dropWhile_id)
  then have "hd ?t = hd (rev ?u)" using u by (metis hd_append2 rev_is_Nil_conv)
  then have "hd (strip_chars P s) = hd ?t" by (simp add: strip_chars_def)
  with h l last show ?thesis by simp
qed

lemma no_double_map_upper: "no_double s \<Longrightarrow> no_double (map upper_chr s)"
  by (induction s rule: no_double.induct) (auto simp: upper_chr_underscore)

lemma no_double_nth: "no_double s \<Longrightarrow> Suc i < length s \<Longrightarrow> \<not> (s ! i = CHR ''_'' \<and> s ! Suc i = CHR ''_'')"
proof (induction s arbitrary: i rule: no_double.induct)
  case 1
  then show ?case by simp
next
  case (2 c)
  then show ?case by simp
next
  case (3 a b cs)
  then show ?case by (cases i) auto
qed

text \<open>
  C6. For every input, the result of \<open>sanitize_title\<close> is not empty, consists of
  upper-case ASCII letters, digits and underscores only, neither starts nor ends with an
  underscore, and has no two underscores in a row. The function is total.
\<close>

theorem sanitize_title_shape:
  "sanitize_title v \<noteq> []
   \<and> (\<forall>c \<in> set (sanitize_title v). is_ascii_upper c \<or> is_digit c \<or> c = CHR ''_'')
   \<and> hd (sanitize_title v) \<noteq> CHR ''_''
   \<and> last (sanitize_title v) \<noteq> CHR ''_''
   \<and> (\<forall>i. Suc i < length (sanitize_title v) \<longrightarrow>
         \<not> (sanitize_title v ! i = CHR ''_'' \<and> sanitize_title v ! Suc i = CHR ''_''))"
proof -
  define s1 where "s1 = sub_runs (\<lambda>c. \<not> is_alnum c) ''_'' (strip v)"
  define s2 where "s2 = sub_runs (\<lambda>c. c = CHR ''_'') ''_'' s1"
  define s3 where "s3 = strip_chars (\<lambda>c. c = CHR ''_'') s2"
  have r: "sanitize_title v = (if upper s3 = [] then ''UNTITLED'' else upper s3)"
    by (simp add: sanitize_title_def s1_def s2_def s3_def)
  show ?thesis
  proof (cases "upper s3 = []")
    case True
    have "\<forall>c \<in> set ''UNTITLED''. is_ascii_upper c \<or> is_digit c \<or> c = CHR ''_''"
      by (simp add: is_ascii_upper_def)
    moreover have "\<forall>i. Suc i < length ''UNTITLED'' \<longrightarrow>
         \<not> (''UNTITLED'' ! i = CHR ''_'' \<and> ''UNTITLED'' ! Suc i = CHR ''_'')"
      using no_double_nth [of "''UNTITLED''"] by simp
    ultimately show ?thesis using True r by simp
  next
    case False
    then have ne: "s3 \<noteq> []" by (simp add: upper_def)
    have a1: "\<forall>c \<in> set s1. is_alnum c \<or> c = CHR ''_''"
      using set_sub_runs [of "\<lambda>c. \<not> is_alnum c" "''_''" "strip v"] by (auto simp: s1_def)
    have a2: "\<forall>c \<in> set s2. is_alnum c \<or> c = CHR ''_''"
      using set_sub_runs [of "\<lambda>c. c = CHR ''_''" "''_''" s1] a1 by (auto simp: s2_def)
    have b2: "no_double s2" unfolding s2_def by (rule no_double_sub_runs) simp
    obtain a b where inf: "s2 = a @ s3 @ b"
      using strip_chars_infix [of s2 "\<lambda>c. c = CHR ''_''"] by (auto simp: s3_def)
    have a3: "\<forall>c \<in> set s3. is_alnum c \<or> c = CHR ''_''" using a2 inf by auto
    have b3: "no_double s3" using b2 inf by (metis no_double_append)
    have e3: "hd s3 \<noteq> CHR ''_'' \<and> last s3 \<noteq> CHR ''_''"
      using strip_chars_ends [of "\<lambda>c. c = CHR ''_''" s2] ne by (simp add: s3_def)
    have c1: "\<forall>c \<in> set (upper s3). is_ascii_upper c \<or> is_digit c \<or> c = CHR ''_''"
      using a3 upper_chr_alnum by (auto simp: upper_def upper_chr_underscore)
    have c2: "hd (upper s3) \<noteq> CHR ''_''"
      using e3 ne by (simp add: upper_def hd_map upper_chr_underscore)
    have c3: "last (upper s3) \<noteq> CHR ''_''"
      using e3 ne by (simp add: upper_def last_map upper_chr_underscore)
    have c4: "no_double (upper s3)" using b3 by (simp add: upper_def no_double_map_upper)
    from c1 c2 c3 no_double_nth [OF c4] False r show ?thesis by simp
  qed
qed

theorem sanitize_title_shape_witness:
  "sanitize_title ''  fix: memory-leak (v2)__now!  '' = ''FIX_MEMORY_LEAK_V2_NOW''
   \<and> sanitize_title ''?!'' = ''UNTITLED''
   \<and> sanitize_title [] \<noteq> []
   \<and> hd (sanitize_title ''__a'') \<noteq> CHR ''_''
   \<and> is_ascii_upper (hd (sanitize_title ''__a''))"
proof -
  have m: "hd (sanitize_title ''__a'') \<in> set (sanitize_title ''__a'')" by code_simp
  have e1: "sanitize_title ''  fix: memory-leak (v2)__now!  '' = ''FIX_MEMORY_LEAK_V2_NOW''"
    by code_simp
  have e2: "sanitize_title ''?!'' = ''UNTITLED''" by code_simp
  have d: "\<not> is_digit (hd (sanitize_title ''__a''))" by code_simp
  from sanitize_title_shape [of "''__a''"] m d sanitize_title_shape [of "[]"] e1 e2
  show ?thesis by blast
qed

section \<open>Extraction of a document without headings\<close>

text \<open>
  C10. When no heading of the form \<open>### <digits>. <title>\<close> matches in the text of a
  document, \<open>extract_issues\<close> writes one warning and returns the empty list. The
  classifier is not consulted: the result is the same for every path, also for one whose
  stem \<open>parse_group\<close> rejects.
\<close>

theorem extract_issues_without_heading:
  "heading_finditer text 0 = [] \<Longrightarrow>
     extract_issues src text = ([Warning (''No issues found in '' @ src)], Inr [])"
  by (simp add: extract_issues_def)

theorem extract_issues_without_heading_witness:
  "heading_finditer ''Nothing to report.'' 0 = []
   \<and> parse_group (path_stem ''tasks/reviews/INFRA_UNKNOWN.md'')
      = Inl (ValueError ''Unable to determine category from filename: INFRA_UNKNOWN'')
   \<and> extract_issues ''tasks/reviews/INFRA_UNKNOWN.md'' ''Nothing to report.''
      = ([Warning ''No issues found in tasks/reviews/INFRA_UNKNOWN.md''], Inr [])"
proof -
  have h: "heading_finditer ''Nothing to report.'' 0 = []" by code_simp
  have c: "parse_group (path_stem ''tasks/reviews/INFRA_UNKNOWN.md'')
      = Inl (ValueError ''Unable to determine category from filename: INFRA_UNKNOWN'')"
    by code_simp
  show ?thesis
    using h c extract_issues_without_heading [OF h, of "''tasks/reviews/INFRA_UNKNOWN.md''"]
    by simp
qed

section \<open>Classification by suffix\<close>

text \<open>
  C4. A stem that ends with \<open>_MONITORING\<close> is classified as category \<open>monitoring\<close>, one
  that ends with \<open>_PERFORMANCE\<close> as \<open>performance\<close>, and the group is the stem without
  that suffix. For every other stem \<open>parse_group\<close> raises its \<open>ValueError\<close>, and a run
  writes no issue of a document with such a stem: if the document has a heading the run
  ends with the error before anything is written, and if it has none the document
  contributes no issue.
\<close>

theorem parse_group_classification:
  "(endswith stem ''_MONITORING'' \<longrightarrow>
      parse_group stem = Inr (take (length stem - length ''_MONITORING'') stem, ''monitoring'')
      \<and> take (length stem - length ''_MONITORING'') stem @ ''_MONITORING'' = stem)
   \<and> (endswith stem ''_PERFORMANCE'' \<longrightarrow>
      parse_group stem = Inr (take (length stem - length ''_PERFORMANCE'') stem, ''performance'')
      \<and> take (length stem - length ''_PERFORMANCE'') stem @ ''_PERFORMANCE'' = stem)
   \<and> (\<not> endswith stem ''_MONITORING'' \<and> \<not> endswith stem ''_PERFORMANCE'' \<longrightarrow>
      parse_group stem
        = Inl (ValueError (''Unable to determine category from filename: '' @ stem))
      \<and> (\<forall>src doc files fs. path_stem src = stem \<and> (src, doc) \<in> set files \<longrightarrow>
            (case main (Some files) fs of ((lg, written, counters, fs'), err) \<Rightarrow>
               (\<forall>i \<in> set written. source_path i \<noteq> src)
               \<and> (heading_finditer doc 0 \<noteq> [] \<longrightarrow>
                    (\<exists>m. err = Some (ValueError m)) \<and> written = [] \<and> fs' = fs))))"
proof (intro conjI impI allI)
  assume m: "endswith stem ''_MONITORING''"
  then show "parse_group stem = Inr (take (length stem - length ''_MONITORING'') stem, ''monitoring'')"
    by (simp add: parse_group_def)
  from m show "take (length stem - length ''_MONITORING'') stem @ ''_MONITORING'' = stem"
    unfolding endswith_def by (metis append_take_drop_id)
next
  assume p: "endswith stem ''_PERFORMANCE''"
  then have "\<not> endswith stem ''_MONITORING''"
    by (auto simp: endswith_append)
  with p show "parse_group stem = Inr (take (length stem - length ''_PERFORMANCE'') stem, ''performance'')"
    by (simp add: parse_group_def)
  from p show "take (length stem - length ''_PERFORMANCE'') stem @ ''_PERFORMANCE'' = stem"
    unfolding endswith_def by (metis append_take_drop_id)
next
  assume n: "\<not> endswith stem ''_MONITORING'' \<and> \<not> endswith stem ''_PERFORMANCE''"
  then show e: "parse_group stem
        = Inl (ValueError (''Unable to determine category from filename: '' @ stem))"
    by (simp add: parse_group_def)
  fix src doc :: string and files :: "(string \<times> string) list" and fs :: filesystem
  assume "path_stem src = stem \<and> (src, doc) \<in> set files"
  then have st: "path_stem src = stem" and mem: "(src, doc) \<in> set files" by auto
  obtain lg written counters fs' err
    where r: "main (Some files) fs = ((lg, written, counters, fs'), err)"
    by (metis surj_pair)
  have a: "\<forall>i \<in> set written. source_path i \<noteq> src"
  proof
    fix i assume i: "i \<in> set written"
    show "source_path i \<noteq> src"
    proof (cases "extract_all files")
      case (Pair lg0 res)
      show ?thesis
      proof (cases res)
        case (Inl e')
        with Pair r have "written = []" by (simp add: main_def)
        with i show ?thesis by simp
      next
        case (Inr all_issues)
        obtain lg1 wr1 c1 fs1 err1
          where w: "write_all all_issues Map.empty fs = ((lg1, wr1, c1, fs1), err1)"
          by (metis surj_pair)
        with Pair Inr r have wr: "written = wr1" by (simp add: main_def)
        from i obtain k where k: "k < length written" "written ! k = i"
          by (auto simp: in_set_conv_nth)
        from write_all_written [OF w] wr k
        have kl: "k < length all_issues" and ik: "i = (all_issues ! k)\<lparr>sequence := sequence i\<rparr>"
          by auto
        from kl have "all_issues ! k \<in> set all_issues" by simp
        moreover from Pair Inr have "extract_all files = (lg0, Inr all_issues)" by simp
        ultimately have "\<exists>src' doc' lg' issues. (src', doc') \<in> set files
            \<and> extract_issues src' doc' = (lg', Inr issues) \<and> all_issues ! k \<in> set issues"
          using extract_all_Inr by blast
        then obtain src' doc' lg' issues where f': "(src', doc') \<in> set files"
          and ex: "extract_issues src' doc' = (lg', Inr issues)" and ki: "all_issues ! k \<in> set issues"
          by blast
        from extract_issues_Inr [OF ex ki] obtain g c where
          pg: "parse_group (path_stem src') = Inr (g, c)" and
          sp: "source_path (all_issues ! k) = src'"
          by (auto simp: issue_of_match_fields)
        from ik have "source_path i = source_path (all_issues ! k)"
          by (metis issue.select_convs(6) issue.surjective issue.update_convs(5))
        with sp pg e st show ?thesis by auto
      qed
    qed
  qed
  have b: "heading_finditer doc 0 \<noteq> [] \<longrightarrow>
             (\<exists>m. err = Some (ValueError m)) \<and> written = [] \<and> fs' = fs"
  proof
    assume "heading_finditer doc 0 \<noteq> []"
    from extract_issues_Inl [OF this] e st
    have "extract_issues src doc = ([], Inl (ValueError (''Unable to determine category from filename: '' @ stem)))"
      by simp
    from extract_all_Inl [OF mem this] obtain lg' e' where x: "extract_all files = (lg', Inl e')"
      by auto
    from extract_all_error [OF x] obtain m where "e' = ValueError m" ..
    with x r show "(\<exists>m. err = Some (ValueError m)) \<and> written = [] \<and> fs' = fs"
      by (auto simp: main_def)
  qed
  from a b r
  show "case main (Some files) fs of ((lg, written, counters, fs'), err) \<Rightarrow>
               (\<forall>i \<in> set written. source_path i \<noteq> src)
               \<and> (heading_finditer doc 0 \<noteq> [] \<longrightarrow>
                    (\<exists>m. err = Some (ValueError m)) \<and> written = [] \<and> fs' = fs)"
    by simp
qed

theorem parse_group_classification_witness:
  "parse_group ''INFRA_MONITORING'' = Inr (''INFRA'', ''monitoring'')
   \<and> parse_group ''DB_PERFORMANCE'' = Inr (''DB'', ''performance'')
   \<and> parse_group ''INFRA_UNKNOWN''
       = Inl (ValueError ''Unable to determine category from filename: INFRA_UNKNOWN'')
   \<and> (\<exists>m. snd (main (Some [(''tasks/reviews/INFRA_UNKNOWN.md'', ''### 1. Leak'')]) [])
          = Some (ValueError m))
   \<and> fst (snd (fst (main (Some [(''tasks/reviews/INFRA_UNKNOWN.md'', ''### 1. Leak'')]) []))) = []
   \<and> snd (snd (snd (fst (main (Some [(''tasks/reviews/INFRA_UNKNOWN.md'', ''### 1. Leak'')]) []))))
       = []"
proof -
  have m: "endswith ''INFRA_MONITORING'' ''_MONITORING''" by code_simp
  have p: "endswith ''DB_PERFORMANCE'' ''_PERFORMANCE''" by code_simp
  have u: "\<not> endswith ''INFRA_UNKNOWN'' ''_MONITORING''
           \<and> \<not> endswith ''INFRA_UNKNOWN'' ''_PERFORMANCE''" by code_simp
  have st: "path_stem ''tasks/reviews/INFRA_UNKNOWN.md'' = ''INFRA_UNKNOWN''" by code_simp
  have hd: "heading_finditer ''### 1. Leak'' 0 \<noteq> []" by code_simp
  from parse_group_classification [of "''INFRA_MONITORING''"] m
  have c1: "parse_group ''INFRA_MONITORING'' = Inr (''INFRA'', ''monitoring'')" by simp
  from parse_group_classification [of "''DB_PERFORMANCE''"] p
  have c2: "parse_group ''DB_PERFORMANCE'' = Inr (''DB'', ''performance'')" by simp
  from parse_group_classification [of "''INFRA_UNKNOWN''"] u
  have c3: "parse_group ''INFRA_UNKNOWN''
       = Inl (ValueError ''Unable to determine category from filename: INFRA_UNKNOWN'')"
    and c4: "\<forall>src doc files fs. path_stem src = ''INFRA_UNKNOWN'' \<and> (src, doc) \<in> set files \<longrightarrow>
            (case main (Some files) fs of ((lg, written, counters, fs'), err) \<Rightarrow>
               (\<forall>i \<in> set written. source_path i \<noteq> src)
               \<and> (heading_finditer doc 0 \<noteq> [] \<longrightarrow>
                    (\<exists>m. err = Some (ValueError m)) \<and> written = [] \<and> fs' = fs))"
    by simp_all
  let ?files = "[(''tasks/reviews/INFRA_UNKNOWN.md'', ''### 1. Leak'')]"
  obtain lg written counters fs' err
    where r: "main (Some ?files) [] = ((lg, written, counters, fs'), err)"
    by (metis surj_pair)
  from c4 [rule_format, of "''tasks/reviews/INFRA_UNKNOWN.md''" "''### 1. Leak''" ?files "[]"] st hd r
  have "(\<exists>m. err = Some (ValueError m)) \<and> written = [] \<and> fs' = []" by simp
  with r c1 c2 c3 show ?thesis by simp
qed

section \<open>Sequence numbers\<close>

lemma write_issue_result:
  assumes "write_issue iss d c fs = (lg, iss', c', fs')"
  shows "iss' = iss\<lparr>sequence := dict_get c (category iss) 0 + 1\<rparr>"
    and "c' = c(category iss \<mapsto> dict_get c (category iss) 0 + 1)"
  using assms by (auto simp: write_issue_def generate_filename_def Let_def dict_get_def)

lemma write_all_sequences:
  "write_all all_issues c fs = ((lg, written, c', fs'), err) \<Longrightarrow>
     (\<forall>j < length (filter (\<lambda>i. category i = cat) written).
        sequence (filter (\<lambda>i. category i = cat) written ! j) = dict_get c cat 0 + int j + 1)
     \<and> c' cat = (if filter (\<lambda>i. category i = cat) written = [] then c cat
                 else Some (dict_get c cat 0 + int (length (filter (\<lambda>i. category i = cat) written))))"
proof (induction all_issues arbitrary: c fs lg written c' fs' err)
  case Nil
  then show ?case by simp
next
  case (Cons iss rest)
  show ?case
  proof (cases "map_of dest_dirs (category iss)")
    case None
    with Cons.prems show ?thesis by simp
  next
    case (Some d)
    obtain lg1 iss1 c1 fs1 where w: "write_issue iss d c fs = (lg1, iss1, c1, fs1)"
      by (cases "write_issue iss d c fs") auto
    obtain lg2 wr2 c2 fs2 err2 where r: "write_all rest c1 fs1 = ((lg2, wr2, c2, fs2), err2)"
      by (metis surj_pair)
    from Cons.prems Some w r have wr: "written = iss1 # wr2" and cc: "c' = c2" by simp_all
    note i1 = write_issue_result [OF w]
    let ?f = "filter (\<lambda>i. category i = cat)"
    from Cons.IH [OF r] have ih1: "\<forall>j < length (?f wr2).
        sequence (?f wr2 ! j) = dict_get c1 cat 0 + int j + 1"
      and ih2: "c2 cat = (if ?f wr2 = [] then c1 cat
                 else Some (dict_get c1 cat 0 + int (length (?f wr2))))" by auto
    have cat1: "category iss1 = category iss" by (subst i1(1)) simp
    have seq1: "sequence iss1 = dict_get c (category iss) 0 + 1" by (subst i1(1)) simp
    show ?thesis
    proof (cases "category iss = cat")
      case True
      have g: "dict_get c1 cat 0 = dict_get c cat 0 + 1"
        using True i1(2) by (simp add: dict_get_def)
      have f: "?f written = iss1 # ?f wr2" using wr cat1 True by simp
      have "\<forall>j < length (?f written). sequence (?f written ! j) = dict_get c cat 0 + int j + 1"
      proof (intro allI impI)
        fix j assume "j < length (?f written)"
        then show "sequence (?f written ! j) = dict_get c cat 0 + int j + 1"
          using f ih1 g seq1 True by (cases j) auto
      qed
      moreover have "c' cat = Some (dict_get c cat 0 + int (length (?f written)))"
        using cc ih2 g f i1(2) True by (auto simp: dict_get_def)
      ultimately show ?thesis using f by simp
    next
      case False
      have g: "dict_get c1 cat 0 = dict_get c cat 0" "c1 cat = c cat"
        using False i1(2) by (simp_all add: dict_get_def)
      have f: "?f written = ?f wr2" using wr cat1 False by simp
      show ?thesis using f ih1 ih2 g cc by simp
    qed
  qed
qed

lemma write_all_complete:
  "\<forall>i \<in> set all_issues. category i = ''monitoring'' \<or> category i = ''performance'' \<Longrightarrow>
   write_all all_issues c fs = ((lg, written, c', fs'), err) \<Longrightarrow>
     err = None \<and> length written = length all_issues"
proof (induction all_issues arbitrary: c fs lg written c' fs' err)
  case Nil
  then show ?case by simp
next
  case (Cons iss rest)
  from Cons.prems(1) obtain d where d: "map_of dest_dirs (category iss) = Some d"
    by (auto simp: dest_dirs_def)
  obtain lg1 iss1 c1 fs1 where w: "write_issue iss d c fs = (lg1, iss1, c1, fs1)"
    by (cases "write_issue iss d c fs") auto
  obtain lg2 wr2 c2 fs2 err2 where r: "write_all rest c1 fs1 = ((lg2, wr2, c2, fs2), err2)"
    by (metis surj_pair)
  from Cons.prems(2) d w r have wr: "written = iss1 # wr2" and e: "err = err2" by simp_all
  from Cons.IH [OF _ r] Cons.prems(1) have "err2 = None \<and> length wr2 = length rest" by simp
  with wr e show ?case by simp
qed

lemma extract_all_categories:
  "extract_all files = (lg, Inr all_issues) \<Longrightarrow> i \<in> set all_issues \<Longrightarrow>
     category i = ''monitoring'' \<or> category i = ''performance''"
proof -
  assume a: "extract_all files = (lg, Inr all_issues)" and i: "i \<in> set all_issues"
  from extract_all_Inr [OF a i] obtain src doc lg' issues where
    ex: "extract_issues src doc = (lg', Inr issues)" and ii: "i \<in> set issues" by blast
  from extract_issues_Inr [OF ex ii] obtain g c k where
    "parse_group (path_stem src) = Inr (g, c)"
    "i = issue_of_match src doc g c (heading_finditer doc 0) k" by blast
  then show ?thesis using parse_group_category by (auto simp: issue_of_match_fields)
qed

text \<open>
  C1. In a run whose extraction succeeds, every extracted issue is written, in the order
  of extraction and changed in its \<open>sequence\<close> only. For each category the sequence
  numbers of its issues are, in that order, 1, 2, ..., N, with N the number of issues of
  the category over all documents; the counter of the category ends at N (and the
  dictionary has no entry for a category without issues, the count 0).
\<close>

theorem sequence_numbers_contiguous:
  assumes "extract_all files = (lg0, Inr all_issues)"
  shows "\<exists>lg written counters fs'.
     main (Some files) fs = ((lg, written, counters, fs'), None)
     \<and> length written = length all_issues
     \<and> (\<forall>k < length all_issues.
           written ! k = (all_issues ! k)\<lparr>sequence := sequence (written ! k)\<rparr>)
     \<and> (\<forall>cat. map sequence (filter (\<lambda>i. category i = cat) written)
                 = map int [1..<Suc (length (filter (\<lambda>i. category i = cat) all_issues))]
              \<and> counters cat
                 = (if filter (\<lambda>i. category i = cat) all_issues = [] then None
                    else Some (int (length (filter (\<lambda>i. category i = cat) all_issues)))))"
proof -
  obtain lg1 written counters fs' err
    where w: "write_all all_issues Map.empty fs = ((lg1, written, counters, fs'), err)"
    by (metis surj_pair)
  have cats: "\<forall>i \<in> set all_issues. category i = ''monitoring'' \<or> category i = ''performance''"
    using extract_all_categories [OF assms] by blast
  from write_all_complete [OF cats w]
  have err: "err = None" and len: "length written = length all_issues" by simp_all
  from write_all_written [OF w] len
  have nth: "\<forall>k < length all_issues.
      written ! k = (all_issues ! k)\<lparr>sequence := sequence (written ! k)\<rparr>" by simp
  have m: "main (Some files) fs = ((lg0 @ lg1, written, counters, fs'), None)"
    using assms w err by (simp add: main_def)
  have "map category written = map category all_issues"
  proof (rule nth_equalityI)
    show "length (map category written) = length (map category all_issues)" using len by simp
  next
    fix k assume "k < length (map category written)"
    then have k: "k < length all_issues" using len by simp
    with nth have "written ! k = (all_issues ! k)\<lparr>sequence := sequence (written ! k)\<rparr>" by simp
    then have "category (written ! k) = category (all_issues ! k)"
      by (metis issue.select_convs(4) issue.surjective issue.update_convs(5))
    with k len show "map category written ! k = map category all_issues ! k" by simp
  qed
  then have flen: "length (filter (\<lambda>i. category i = cat) written)
      = length (filter (\<lambda>i. category i = cat) all_issues)" for cat
    by (metis (mono_tags, lifting) comp_apply filter_cong filter_map length_map)
  have "map sequence (filter (\<lambda>i. category i = cat) written)
                 = map int [1..<Suc (length (filter (\<lambda>i. category i = cat) all_issues))]
        \<and> counters cat
                 = (if filter (\<lambda>i. category i = cat) all_issues = [] then None
                    else Some (int (length (filter (\<lambda>i. category i = cat) all_issues))))" for cat
  proof
    let ?f = "filter (\<lambda>i. category i = cat)"
    from write_all_sequences [OF w, of cat]
    have s: "\<forall>j < length (?f written). sequence (?f written ! j) = int j + 1"
      and c: "counters cat = (if ?f written = [] then None else Some (int (length (?f written))))"
      by (simp_all add: dict_get_def)
    show "map sequence (?f written) = map int [1..<Suc (length (?f all_issues))]"
    proof (rule nth_equalityI)
      show "length (map sequence (?f written)) = length (map int [1..<Suc (length (?f all_issues))])"
        using flen [of cat] by (simp del: upt_Suc)
    next
      fix j assume "j < length (map sequence (?f written))"
      then have j: "j < length (?f written)" by simp
      with s have "sequence (?f written ! j) = int j + 1" by simp
      moreover have "[1..<Suc (length (?f all_issues))] ! j = 1 + j"
        using j flen [of cat] by (simp add: nth_upt del: upt_Suc)
      ultimately show "map sequence (?f written) ! j = map int [1..<Suc (length (?f all_issues))] ! j"
        using j flen [of cat] by (simp del: upt_Suc)
    qed
    show "counters cat = (if ?f all_issues = [] then None else Some (int (length (?f all_issues))))"
      using c flen [of cat] by (metis length_0_conv)
  qed
  with m len nth show ?thesis by blast
qed

theorem sequence_numbers_contiguous_witness:
  "snd (main (Some [(''tasks/reviews/A_MONITORING.md'', ''### 7. Leak'' @ [newline] @ ''### 7. Timeout''),
      (''tasks/reviews/B_PERFORMANCE.md'', ''### 1. Slow query''),
      (''tasks/reviews/C_MONITORING.md'', ''### 1. Alert storm'')]) []) = None
   \<and> map sequence (filter (\<lambda>i. category i = ''monitoring'')
        (fst (snd (fst (main (Some [(''tasks/reviews/A_MONITORING.md'', ''### 7. Leak'' @ [newline] @ ''### 7. Timeout''),
      (''tasks/reviews/B_PERFORMANCE.md'', ''### 1. Slow query''),
      (''tasks/reviews/C_MONITORING.md'', ''### 1. Alert storm'')]) []))))) = [1, 2, 3]"
proof -
  let ?F = "[(''tasks/reviews/A_MONITORING.md'', ''### 7. Leak'' @ [newline] @ ''### 7. Timeout''),
      (''tasks/reviews/B_PERFORMANCE.md'', ''### 1. Slow query''),
      (''tasks/reviews/C_MONITORING.md'', ''### 1. Alert storm'')]"
  have a: "\<not> isl (snd (extract_all ?F))" by code_simp
  then obtain lg0 all_issues where e: "extract_all ?F = (lg0, Inr all_issues)"
    by (metis sum.collapse(2) surjective_pairing)
  have "length (filter (\<lambda>i. category i = ''monitoring'') (projr (snd (extract_all ?F)))) = 3"
    by code_simp
  with e have n: "length (filter (\<lambda>i. category i = ''monitoring'') all_issues) = 3" by simp
  from sequence_numbers_contiguous [OF e, of "[]"] obtain lg written counters fs' where
    m: "main (Some ?F) [] = ((lg, written, counters, fs'), None)" and
    s: "\<forall>cat. map sequence (filter (\<lambda>i. category i = cat) written)
                 = map int [1..<Suc (length (filter (\<lambda>i. category i = cat) all_issues))]"
    by blast
  from s n have "map sequence (filter (\<lambda>i. category i = ''monitoring'') written) = map int [1..<Suc 3]"
    by metis
  also have "\<dots> = [1, 2, 3]" by (simp add: upt_rec)
  finally show ?thesis using m by simp
qed

section \<open>Collisions of file names\<close>

lemma collision_loop_free: "\<not> path_exists fs (collision_loop fs d b t s)"
proof (induction fs d b t s rule: collision_loop.induct)
  case (1 fs d b t s)
  then show ?case by (subst collision_loop.simps) simp
qed

lemma collision_loop_unused: "\<not> path_exists fs t \<Longrightarrow> collision_loop fs d b t s = t"
  by (subst collision_loop.simps) simp

lemma collision_loop_taken:
  "path_exists fs t \<Longrightarrow>
     \<exists>k\<ge>s. collision_loop fs d b t s = suffixed_path d b k
          \<and> (\<forall>j. s \<le> j \<and> j < k \<longrightarrow> path_exists fs (suffixed_path d b j))"
proof (induction fs d b t s rule: collision_loop.induct)
  case (1 fs d b t s)
  have step: "collision_loop fs d b t s = collision_loop fs d b (suffixed_path d b s) (s + 1)"
    using "1.prems" by (subst collision_loop.simps) simp
  show ?case
  proof (cases "path_exists fs (suffixed_path d b s)")
    case False
    then have "collision_loop fs d b t s = suffixed_path d b s"
      using step by (simp add: collision_loop_unused)
    then show ?thesis by auto
  next
    case True
    from "1.IH" [OF "1.prems" True] obtain k where k: "k \<ge> s + 1"
      "collision_loop fs d b (suffixed_path d b s) (s + 1) = suffixed_path d b k"
      "\<forall>j. s + 1 \<le> j \<and> j < k \<longrightarrow> path_exists fs (suffixed_path d b j)" by blast
    have "\<forall>j. s \<le> j \<and> j < k \<longrightarrow> path_exists fs (suffixed_path d b j)"
    proof (intro allI impI)
      fix j assume "s \<le> j \<and> j < k"
      then consider "j = s" | "s + 1 \<le> j \<and> j < k" by linarith
      then show "path_exists fs (suffixed_path d b j)" using True k(3) by cases auto
    qed
    with k step show ?thesis by (metis Suc_eq_plus1 Suc_leD)
  qed
qed

lemma map_of_write_text: "map_of (write_text fs p c) = (map_of fs)(p \<mapsto> c)"
  by (simp add: write_text_def update_conv')

lemma path_exists_write_text: "path_exists (write_text fs p c) q \<longleftrightarrow> q = p \<or> path_exists fs q"
  by (simp add: path_exists_def map_of_write_text)

lemma write_issue_target:
  assumes "generate_filename iss c = (iss', c', base_name, filename)"
  shows "write_issue iss d c fs =
     ([Info (''Writing '' @ collision_loop fs d base_name (d @ ''/'' @ filename) 1)], iss', c',
      write_text fs (collision_loop fs d base_name (d @ ''/'' @ filename) 1) (document iss'))"
  using assms by (simp add: write_issue_def Let_def)

text \<open>
  C5, as the code has it. Let two issues have the same candidate file name, and let the
  second be written after the first into the same directory. Neither write changes a file
  that exists, so the file written for the first issue keeps its content. The second is
  written under the first of the names \<open>base_1.md\<close>, \<open>base_2.md\<close>, ... that is not
  present in the destination; that is \<open>base_1.md\<close> when no file of that name is present.
\<close>

theorem write_issue_keeps_files:
  assumes ga: "generate_filename a ca = (a', ca', base_name, filename)"
      and gb: "generate_filename b cb = (b', cb', base_name, filename)"
      and wa: "write_issue a d ca fs = (lga, a1, ca1, fs1)"
      and wb: "write_issue b d cb fs1 = (lgb, b1, cb1, fs2)"
  shows "(\<forall>p. path_exists fs p \<longrightarrow> map_of fs1 p = map_of fs p)
       \<and> (\<forall>p. path_exists fs1 p \<longrightarrow> map_of fs2 p = map_of fs1 p)
       \<and> (\<exists>ta. lga = [Info (''Writing '' @ ta)] \<and> map_of fs2 ta = Some (document a'))
       \<and> (\<exists>k\<ge>1. lgb = [Info (''Writing '' @ suffixed_path d base_name k)]
              \<and> \<not> path_exists fs1 (suffixed_path d base_name k)
              \<and> map_of fs2 (suffixed_path d base_name k) = Some (document b')
              \<and> (\<forall>j. 1 \<le> j \<and> j < k \<longrightarrow> path_exists fs1 (suffixed_path d base_name j)))
       \<and> (\<not> path_exists fs1 (suffixed_path d base_name 1) \<longrightarrow>
              lgb = [Info (''Writing '' @ suffixed_path d base_name 1)]
              \<and> map_of fs2 (suffixed_path d base_name 1) = Some (document b'))"
proof -
  let ?cand = "d @ ''/'' @ filename"
  let ?ta = "collision_loop fs d base_name ?cand 1"
  let ?tb = "collision_loop fs1 d base_name ?cand 1"
  from wa write_issue_target [OF ga, of d fs]
  have la: "lga = [Info (''Writing '' @ ?ta)]" and f1: "fs1 = write_text fs ?ta (document a')"
    by auto
  from wb write_issue_target [OF gb, of d fs1]
  have lb: "lgb = [Info (''Writing '' @ ?tb)]" and f2: "fs2 = write_text fs1 ?tb (document b')"
    by auto
  have fa: "\<not> path_exists fs ?ta" by (rule collision_loop_free)
  have fb: "\<not> path_exists fs1 ?tb" by (rule collision_loop_free)
  have p1: "\<forall>p. path_exists fs p \<longrightarrow> map_of fs1 p = map_of fs p"
    using fa f1 by (auto simp: map_of_write_text)
  have p2: "\<forall>p. path_exists fs1 p \<longrightarrow> map_of fs2 p = map_of fs1 p"
    using fb f2 by (auto simp: map_of_write_text)
  have a1: "map_of fs1 ?ta = Some (document a')" using f1 by (simp add: map_of_write_text)
  then have "path_exists fs1 ?ta" by (simp add: path_exists_def)
  with p2 a1 have p3: "map_of fs2 ?ta = Some (document a')" by simp
  have cand: "path_exists fs1 ?cand"
  proof (cases "path_exists fs ?cand")
    case True
    then show ?thesis using f1 by (simp add: path_exists_write_text)
  next
    case False
    then have "?ta = ?cand" by (rule collision_loop_unused)
    then show ?thesis using f1 by (simp add: path_exists_write_text)
  qed
  from collision_loop_taken [OF cand, of 1 d base_name] obtain k where k: "k \<ge> 1"
    "?tb = suffixed_path d base_name k"
    "\<forall>j. 1 \<le> j \<and> j < k \<longrightarrow> path_exists fs1 (suffixed_path d base_name j)" by blast
  have b2: "map_of fs2 ?tb = Some (document b')" using f2 by (simp add: map_of_write_text)
  have p4: "\<exists>k\<ge>1. lgb = [Info (''Writing '' @ suffixed_path d base_name k)]
              \<and> \<not> path_exists fs1 (suffixed_path d base_name k)
              \<and> map_of fs2 (suffixed_path d base_name k) = Some (document b')
              \<and> (\<forall>j. 1 \<le> j \<and> j < k \<longrightarrow> path_exists fs1 (suffixed_path d base_name j))"
    using k lb fb b2 by auto
  have p5: "\<not> path_exists fs1 (suffixed_path d base_name 1) \<longrightarrow>
              lgb = [Info (''Writing '' @ suffixed_path d base_name 1)]
              \<and> map_of fs2 (suffixed_path d base_name 1) = Some (document b')"
  proof
    assume free: "\<not> path_exists fs1 (suffixed_path d base_name 1)"
    have "k = 1"
    proof (rule ccontr)
      assume "k \<noteq> 1"
      with k(1) have "1 \<le> (1::nat) \<and> 1 < k" by simp
      with k(3) free show False by blast
    qed
    with k lb b2 show "lgb = [Info (''Writing '' @ suffixed_path d base_name 1)]
              \<and> map_of fs2 (suffixed_path d base_name 1) = Some (document b')" by simp
  qed
  from p1 p2 la p3 p4 p5 show ?thesis by blast
qed

theorem write_issue_keeps_files_witness:
  "fst (write_issue
      \<lparr>title = ''Leak'', source_issue_index = 1, group = ''INFRA'', category = ''monitoring'',
       sequence = 0, source_path = ''tasks/reviews/INFRA_MONITORING.md'', body = ''## Leak'',
       priority = None, status = ''pending'', extra_frontmatter = []\<rparr>
      ''ai-docs/reviews/monitoring'' Map.empty [])
     = [Info ''Writing ai-docs/reviews/monitoring/001_INFRA_LEAK.md'']
   \<and> fst (write_issue
      \<lparr>title = ''Leak'', source_issue_index = 1, group = ''INFRA'', category = ''monitoring'',
       sequence = 0, source_path = ''tasks/reviews/INFRA_MONITORING.md'', body = ''## Leak'',
       priority = None, status = ''pending'', extra_frontmatter = []\<rparr>
      ''ai-docs/reviews/monitoring'' Map.empty
      (snd (snd (snd (write_issue
        \<lparr>title = ''Leak'', source_issue_index = 1, group = ''INFRA'', category = ''monitoring'',
         sequence = 0, source_path = ''tasks/reviews/INFRA_MONITORING.md'', body = ''## Leak'',
         priority = None, status = ''pending'', extra_frontmatter = []\<rparr>
        ''ai-docs/reviews/monitoring'' Map.empty [])))))
     = [Info ''Writing ai-docs/reviews/monitoring/001_INFRA_LEAK_1.md'']"
proof -
  let ?I = "\<lparr>title = ''Leak'', source_issue_index = 1, group = ''INFRA'', category = ''monitoring'',
       sequence = 0, source_path = ''tasks/reviews/INFRA_MONITORING.md'', body = ''## Leak'',
       priority = None, status = ''pending'', extra_frontmatter = []\<rparr>"
  let ?D = "''ai-docs/reviews/monitoring''"
  have g: "fst (snd (snd (generate_filename ?I Map.empty))) = ''001_INFRA_LEAK''
         \<and> snd (snd (snd (generate_filename ?I Map.empty))) = ''001_INFRA_LEAK.md''"
    by code_simp
  then obtain a' ca' where
    ga: "generate_filename ?I Map.empty = (a', ca', ''001_INFRA_LEAK'', ''001_INFRA_LEAK.md'')"
    by (metis prod.collapse)
  obtain lga a1 ca1 fs1 where wa: "write_issue ?I ?D Map.empty [] = (lga, a1, ca1, fs1)"
    by (metis surj_pair)
  obtain lgb b1 cb1 fs2 where wb: "write_issue ?I ?D Map.empty fs1 = (lgb, b1, cb1, fs2)"
    by (metis surj_pair)
  have "\<not> path_exists (snd (snd (snd (write_issue ?I ?D Map.empty []))))
            (suffixed_path ?D ''001_INFRA_LEAK'' 1)"
    by code_simp
  with wa have free: "\<not> path_exists fs1 (suffixed_path ?D ''001_INFRA_LEAK'' 1)" by simp
  from write_issue_keeps_files [OF ga ga wa wb] free
  have "lgb = [Info (''Writing '' @ suffixed_path ?D ''001_INFRA_LEAK'' 1)]" by blast
  moreover have "suffixed_path ?D ''001_INFRA_LEAK'' 1 = ''ai-docs/reviews/monitoring/001_INFRA_LEAK_1.md''"
    by code_simp
  moreover have "fst (write_issue ?I ?D Map.empty [])
     = [Info ''Writing ai-docs/reviews/monitoring/001_INFRA_LEAK.md'']"
    by code_simp
  ultimately show ?thesis using wa wb by simp
qed

text \<open>
  The second issue is not always written under the suffix \<open>_1\<close>: when the destination
  already holds \<open>001_INFRA_LEAK_1.md\<close>, a first run writes \<open>001_INFRA_LEAK.md\<close> and a
  second run over the same document writes \<open>001_INFRA_LEAK_2.md\<close>.
\<close>

theorem write_issue_suffix_counterexample:
  "fst (fst (main (Some [(''tasks/reviews/INFRA_MONITORING.md'', ''### 1. Leak'')])
          [(''ai-docs/reviews/monitoring/001_INFRA_LEAK_1.md'', ''kept'')]))
     = [Info ''Writing ai-docs/reviews/monitoring/001_INFRA_LEAK.md'']
   \<and> fst (fst (main (Some [(''tasks/reviews/INFRA_MONITORING.md'', ''### 1. Leak'')])
          (snd (snd (snd (fst (main (Some [(''tasks/reviews/INFRA_MONITORING.md'', ''### 1. Leak'')])
             [(''ai-docs/reviews/monitoring/001_INFRA_LEAK_1.md'', ''kept'')])))))))
     = [Info ''Writing ai-docs/reviews/monitoring/001_INFRA_LEAK_2.md'']
   \<and> ''ai-docs/reviews/monitoring/001_INFRA_LEAK_2.md''
       \<noteq> suffixed_path ''ai-docs/reviews/monitoring'' ''001_INFRA_LEAK'' 1"
  by code_simp

section \<open>The sections of a document\<close>







section \<open>The priority of an issue\<close>

lemma isspace_newline: "isspace_chr newline"
  by (simp add: isspace_chr_def newline_def)

lemma strip_no_space_end: "strip s = [] \<or> (\<not> isspace_chr (last (strip s)) \<and> \<not> isspace_chr (hd (strip s)))"
  using strip_chars_ends [of isspace_chr s] by (auto simp: strip_def)

lemma takeWhile_prefix:
  "\<forall>c \<in> set xs. P c \<Longrightarrow> ys = [] \<or> \<not> P (hd ys) \<Longrightarrow> takeWhile P (xs @ ys) = xs"
  by (cases ys) (auto simp: takeWhile_append2)

lemma dropWhile_prefix:
  "\<forall>c \<in> set xs. P c \<Longrightarrow> ys = [] \<or> \<not> P (hd ys) \<Longrightarrow> dropWhile P (xs @ ys) = ys"
  by (cases ys) (auto simp: dropWhile_append2)

lemma match_priority_unfold:
  "match_priority t =
     (if take 13 t = ''**Priority:**'' \<or> take 13 t = ''**Severity:**'' then
        if dropWhile isspace_chr (drop 13 t) \<noteq> []
        then Some (takeWhile (\<lambda>c. c \<noteq> newline) (dropWhile isspace_chr (drop 13 t)))
        else (case dropWhile (\<lambda>c. c = newline) (rev (takeWhile isspace_chr (drop 13 t))) of
                [] \<Rightarrow> None | c # _ \<Rightarrow> Some [c])
      else None)"
  unfolding match_priority_def Let_def ..

lemma match_priority_to_field:
  assumes st: "s = [] \<or> \<not> isspace_chr (last s)"
      and m: "match_priority (drop p s) = Some g"
  shows "priority_field_at s p g"
proof -
  define t where "t = drop p s"
  define label where "label = take 13 t"
  define r1 where "r1 = drop 13 t"
  define ws where "ws = takeWhile isspace_chr r1"
  define r2 where "r2 = dropWhile isspace_chr r1"
  note mu = match_priority_unfold [of t, folded r1_def label_def, folded r2_def ws_def]
  from m have m': "match_priority t = Some g" unfolding t_def .
  from m' have lab: "label = ''**Priority:**'' \<or> label = ''**Severity:**''"
    unfolding mu by (simp split: if_splits)
  have t: "drop p s = label @ r1"
    unfolding label_def r1_def t_def by (rule append_take_drop_id [symmetric])
  have r1: "r1 = ws @ r2"
    unfolding ws_def r2_def by (rule takeWhile_dropWhile_id [symmetric])
  have wsp: "\<forall>c \<in> set ws. isspace_chr c" unfolding ws_def by (auto dest: set_takeWhileD)
  have r2: "r2 \<noteq> []"
  proof
    assume e: "r2 = []"
    show False
    proof (cases "ws = []")
      case True
      with m' lab e show False unfolding mu by simp
    next
      case False
      from e t r1 have tt: "drop p s = label @ ws" by simp
      with False have "last (drop p s) = last ws" by simp
      moreover have "last ws \<in> set ws" using False by simp
      with wsp have "isspace_chr (last ws)" by blast
      moreover from tt False have ne: "drop p s \<noteq> []" by simp
      then have "last (drop p s) = last s" by (simp add: last_drop)
      moreover from ne have "s \<noteq> []" by auto
      ultimately show False using st by simp
    qed
  qed
  with m' lab have g: "g = takeWhile (\<lambda>c. c \<noteq> newline) r2"
    unfolding mu by (simp split: if_splits)
  define rest where "rest = dropWhile (\<lambda>c. c \<noteq> newline) r2"
  from r2 have h: "\<not> isspace_chr (hd r2)" unfolding r2_def by (rule hd_dropWhile)
  then have "hd r2 \<noteq> newline" using isspace_newline by auto
  with r2 obtain c r where cr: "r2 = c # r" "c \<noteq> newline" by (cases r2) auto
  then have gne: "g \<noteq> []" and hg: "hd g = hd r2" unfolding g by simp_all
  have nl: "newline \<notin> set g" unfolding g by (auto dest: set_takeWhileD)
  have rest: "rest = [] \<or> hd rest = newline"
    unfolding rest_def using hd_dropWhile [of "\<lambda>c. c \<noteq> newline" r2] by auto
  have "r2 = g @ rest" unfolding g rest_def by simp
  with t r1 have "drop p s = label @ ws @ g @ rest" by simp
  with lab wsp gne hg h nl rest
  have "(label = ''**Priority:**'' \<or> label = ''**Severity:**'')
        \<and> drop p s = label @ ws @ g @ rest
        \<and> (\<forall>c \<in> set ws. isspace_chr c)
        \<and> g \<noteq> [] \<and> \<not> isspace_chr (hd g) \<and> newline \<notin> set g
        \<and> (rest = [] \<or> hd rest = newline)"
    by (intro conjI) simp_all
  then show ?thesis
    unfolding priority_field_at_def
    by (rule exI [of _ label, OF exI [of _ ws, OF exI [of _ rest]]])
qed

lemma field_to_match_priority:
  assumes f: "priority_field_at s p g"
  shows "match_priority (drop p s) = Some g"
proof -
  from f obtain label ws rest where
    lab: "label = ''**Priority:**'' \<or> label = ''**Severity:**''" and
    d: "drop p s = label @ ws @ g @ rest" and
    ws: "\<forall>c \<in> set ws. isspace_chr c" and
    g: "g \<noteq> []" "\<not> isspace_chr (hd g)" "newline \<notin> set g" and
    rest: "rest = [] \<or> hd rest = newline"
    unfolding priority_field_at_def by blast
  define t where "t = drop p s"
  from lab have len: "length label = 13" by auto
  have t13: "take 13 t = label" using d len by (simp add: t_def)
  have d13: "drop 13 t = ws @ (g @ rest)" using d len by (simp add: t_def)
  have hgr: "g @ rest = [] \<or> \<not> isspace_chr (hd (g @ rest))" using g by simp
  have tw: "takeWhile isspace_chr (ws @ (g @ rest)) = ws" using ws hgr by (rule takeWhile_prefix)
  have dw: "dropWhile isspace_chr (ws @ (g @ rest)) = g @ rest" using ws hgr by (rule dropWhile_prefix)
  have tg: "takeWhile (\<lambda>c. c \<noteq> newline) (g @ rest) = g"
    using g(3) rest by (intro takeWhile_prefix) auto
  have "match_priority t = Some g"
    unfolding match_priority_unfold t13 d13 dw tg using lab g(1) by simp
  then show ?thesis by (simp add: t_def)
qed

lemma search_priority_first:
  "search_priority s = Some g \<longleftrightarrow>
     (\<exists>p. match_priority (drop p s) = Some g \<and> (\<forall>q<p. match_priority (drop q s) = None))"
proof (induction s)
  case Nil
  have "match_priority [] = None" by (simp add: match_priority_def)
  then show ?case by simp
next
  case (Cons c cs)
  show ?case
  proof (cases "match_priority (c # cs)")
    case (Some g0)
    have "(\<exists>p. match_priority (drop p (c # cs)) = Some g
             \<and> (\<forall>q<p. match_priority (drop q (c # cs)) = None)) \<longleftrightarrow> g = g0"
    proof
      assume "\<exists>p. match_priority (drop p (c # cs)) = Some g
             \<and> (\<forall>q<p. match_priority (drop q (c # cs)) = None)"
      then obtain p where p: "match_priority (drop p (c # cs)) = Some g"
        "\<forall>q<p. match_priority (drop q (c # cs)) = None" by blast
      have "p = 0"
      proof (rule ccontr)
        assume "p \<noteq> 0"
        then have "0 < p" by simp
        with p(2) have "match_priority (drop 0 (c # cs)) = None" by blast
        with Some show False by simp
      qed
      with p(1) Some show "g = g0" by simp
    next
      assume "g = g0"
      with Some have "match_priority (drop 0 (c # cs)) = Some g
             \<and> (\<forall>q<0. match_priority (drop q (c # cs)) = None)" by simp
      then show "\<exists>p. match_priority (drop p (c # cs)) = Some g
             \<and> (\<forall>q<p. match_priority (drop q (c # cs)) = None)" by blast
    qed
    with Some show ?thesis by auto
  next
    case None
    have "(\<exists>p. match_priority (drop p (c # cs)) = Some g
             \<and> (\<forall>q<p. match_priority (drop q (c # cs)) = None))
        \<longleftrightarrow> (\<exists>p. match_priority (drop p cs) = Some g
             \<and> (\<forall>q<p. match_priority (drop q cs) = None))"
    proof
      assume "\<exists>p. match_priority (drop p (c # cs)) = Some g
             \<and> (\<forall>q<p. match_priority (drop q (c # cs)) = None)"
      then obtain p where p: "match_priority (drop p (c # cs)) = Some g"
        "\<forall>q<p. match_priority (drop q (c # cs)) = None" by blast
      from p(1) None obtain p' where p': "p = Suc p'" by (cases p) auto
      with p(1) have "match_priority (drop p' cs) = Some g" by simp
      moreover have "\<forall>q<p'. match_priority (drop q cs) = None"
      proof (intro allI impI)
        fix q assume "q < p'"
        then have "Suc q < p" using p' by simp
        with p(2) have "match_priority (drop (Suc q) (c # cs)) = None" by blast
        then show "match_priority (drop q cs) = None" by simp
      qed
      ultimately show "\<exists>p. match_priority (drop p cs) = Some g
             \<and> (\<forall>q<p. match_priority (drop q cs) = None)" by blast
    next
      assume "\<exists>p. match_priority (drop p cs) = Some g
             \<and> (\<forall>q<p. match_priority (drop q cs) = None)"
      then obtain p where p: "match_priority (drop p cs) = Some g"
        "\<forall>q<p. match_priority (drop q cs) = None" by blast
      have "match_priority (drop (Suc p) (c # cs)) = Some g" using p(1) by simp
      moreover have "\<forall>q<Suc p. match_priority (drop q (c # cs)) = None"
      proof (intro allI impI)
        fix q assume "q < Suc p"
        then show "match_priority (drop q (c # cs)) = None"
          using None p(2) by (cases q) auto
      qed
      ultimately show "\<exists>p. match_priority (drop p (c # cs)) = Some g
             \<and> (\<forall>q<p. match_priority (drop q (c # cs)) = None)" by blast
    qed
    with None Cons.IH show ?thesis by simp
  qed
qed

lemma trim_section_stripped:
  "trim_section raw = [] \<or> \<not> isspace_chr (last (trim_section raw))"
  unfolding trim_section_def using strip_no_space_end by blast

lemma extract_issues_nth:
  assumes "extract_issues src doc = (lg, Inr issues)" and "idx < length issues"
  shows "\<exists>g c. issues ! idx = issue_of_match src doc g c (heading_finditer doc 0) idx"
  using assms
  by (fastforce simp: extract_issues_def Let_def split: if_splits sum.splits simp del: upt_Suc)

lemma issue_of_match_priority:
  "priority (issue_of_match src doc g c ms idx)
     = (case search_priority (trim_section (raw_section doc ms idx)) of
          None \<Rightarrow> None | Some v \<Rightarrow> Some (strip v))"
  by (simp add: issue_of_match_def Let_def)

lemma strip_dropWhile: "strip (dropWhile isspace_chr v) = strip v"
  by (simp add: strip_def strip_chars_def dropWhile_idem)

lemma spec_field_is_field:
  assumes "spec_priority_field (drop p s) = Some v"
  shows "priority_field_at s p (dropWhile isspace_chr v)"
proof -
  define t where "t = drop p s"
  define label where "label = take 13 t"
  define r where "r = drop 13 t"
  define ws where "ws = takeWhile isspace_chr v"
  define g where "g = dropWhile isspace_chr v"
  define rest where "rest = dropWhile (\<lambda>c. c \<noteq> newline) r"
  from assms have a: "spec_priority_field t = Some v" unfolding t_def .
  then have lab: "label = ''**Priority:**'' \<or> label = ''**Severity:**''"
    unfolding spec_priority_field_def label_def by (simp split: if_splits)
  from a have v: "v = takeWhile (\<lambda>c. c \<noteq> newline) r"
    unfolding spec_priority_field_def r_def Let_def by (simp split: if_splits)
  from a have ns: "\<exists>c \<in> set v. \<not> isspace_chr c"
    unfolding spec_priority_field_def Let_def by (auto split: if_splits)
  have d: "drop p s = label @ r"
    unfolding label_def r_def t_def by (rule append_take_drop_id [symmetric])
  have rr: "r = v @ rest" unfolding v rest_def by simp
  have vv: "v = ws @ g" unfolding ws_def g_def by simp
  have wsp: "\<forall>c \<in> set ws. isspace_chr c" unfolding ws_def by (auto dest: set_takeWhileD)
  have gne: "g \<noteq> []" unfolding g_def using ns by (simp add: dropWhile_eq_Nil_conv)
  then have hg: "\<not> isspace_chr (hd g)" unfolding g_def by (rule hd_dropWhile)
  have "newline \<notin> set v" unfolding v by (auto dest: set_takeWhileD)
  then have nl: "newline \<notin> set g" unfolding g_def by (auto dest: set_dropWhileD)
  have rest: "rest = [] \<or> hd rest = newline"
    unfolding rest_def using hd_dropWhile [of "\<lambda>c. c \<noteq> newline" r] by auto
  from d rr vv have "drop p s = label @ ws @ g @ rest" by simp
  with lab wsp gne hg nl rest
  have "(label = ''**Priority:**'' \<or> label = ''**Severity:**'')
        \<and> drop p s = label @ ws @ g @ rest
        \<and> (\<forall>c \<in> set ws. isspace_chr c)
        \<and> g \<noteq> [] \<and> \<not> isspace_chr (hd g) \<and> newline \<notin> set g
        \<and> (rest = [] \<or> hd rest = newline)"
    by (intro conjI) simp_all
  then show ?thesis
    unfolding priority_field_at_def g_def [symmetric]
    by (rule exI [of _ label, OF exI [of _ ws, OF exI [of _ rest]]])
qed

text \<open>
  C9, as the code has it. For every issue that \<open>extract_issues\<close> returns, with
  \<open>sect\<close> its trimmed section, and a field being the label, white space that may hold
  line feeds, and text to the end of its line: if \<open>sect\<close> holds a field, the priority is
  the stripped text of the first field in textual order; if it holds none, the priority is
  absent; a priority that is present is always the stripped text of the first field; and
  when the specification's field (text on the label's own line) stands at a position with
  no field before it, the priority is its stripped text.
\<close>

theorem priority_is_first_field:
  assumes ex: "extract_issues src doc = (lg, Inr issues)"
      and idx: "idx < length issues"
      and sect: "sect = trim_section (raw_section doc (heading_finditer doc 0) idx)"
  shows "(\<forall>p g. priority_field_at sect p g \<and> (\<forall>q<p. \<forall>g'. \<not> priority_field_at sect q g')
              \<longrightarrow> priority (issues ! idx) = Some (strip g))
       \<and> ((\<forall>p g. \<not> priority_field_at sect p g) \<longrightarrow> priority (issues ! idx) = None)
       \<and> (\<forall>v. priority (issues ! idx) = Some v \<longrightarrow>
              (\<exists>p g. priority_field_at sect p g \<and> (\<forall>q<p. \<forall>g'. \<not> priority_field_at sect q g')
                     \<and> v = strip g))
       \<and> (\<forall>p v. spec_priority_field (drop p sect) = Some v
                 \<and> (\<forall>q<p. \<forall>g'. \<not> priority_field_at sect q g')
              \<longrightarrow> priority (issues ! idx) = Some (strip v))"
proof -
  from extract_issues_nth [OF ex idx] obtain g c where
    "issues ! idx = issue_of_match src doc g c (heading_finditer doc 0) idx" by blast
  then have pr: "priority (issues ! idx)
     = (case search_priority sect of None \<Rightarrow> None | Some v \<Rightarrow> Some (strip v))"
    by (simp add: issue_of_match_priority sect)
  have st: "sect = [] \<or> \<not> isspace_chr (last sect)"
    unfolding sect by (rule trim_section_stripped)
  have fm: "match_priority (drop p sect) = Some g \<longleftrightarrow> priority_field_at sect p g" for p g
    using match_priority_to_field [OF st] field_to_match_priority by blast
  have nm: "match_priority (drop p sect) = None \<longleftrightarrow> (\<forall>g. \<not> priority_field_at sect p g)" for p
    using fm [of p] by (cases "match_priority (drop p sect)") auto
  have sf: "search_priority sect = Some g \<longleftrightarrow>
       (\<exists>p. priority_field_at sect p g \<and> (\<forall>q<p. \<forall>g'. \<not> priority_field_at sect q g'))" for g
    unfolding search_priority_first fm nm ..
  have a: "\<forall>p g. priority_field_at sect p g \<and> (\<forall>q<p. \<forall>g'. \<not> priority_field_at sect q g')
              \<longrightarrow> priority (issues ! idx) = Some (strip g)"
  proof (intro allI impI)
    fix p g
    assume "priority_field_at sect p g \<and> (\<forall>q<p. \<forall>g'. \<not> priority_field_at sect q g')"
    then have "search_priority sect = Some g" unfolding sf by blast
    then show "priority (issues ! idx) = Some (strip g)" by (simp add: pr)
  qed
  have b: "(\<forall>p g. \<not> priority_field_at sect p g) \<longrightarrow> priority (issues ! idx) = None"
  proof
    assume n: "\<forall>p g. \<not> priority_field_at sect p g"
    have "search_priority sect = None"
    proof (cases "search_priority sect")
      case None
      then show ?thesis .
    next
      case (Some g)
      then obtain p where "priority_field_at sect p g" unfolding sf by blast
      with n show ?thesis by blast
    qed
    then show "priority (issues ! idx) = None" by (simp add: pr)
  qed
  have c: "\<forall>v. priority (issues ! idx) = Some v \<longrightarrow>
              (\<exists>p g. priority_field_at sect p g \<and> (\<forall>q<p. \<forall>g'. \<not> priority_field_at sect q g')
                     \<and> v = strip g)"
  proof (intro allI impI)
    fix v assume v: "priority (issues ! idx) = Some v"
    then obtain g where g: "search_priority sect = Some g" "v = strip g"
      unfolding pr by (cases "search_priority sect") auto
    from g(1) obtain p where
      "priority_field_at sect p g \<and> (\<forall>q<p. \<forall>g'. \<not> priority_field_at sect q g')"
      unfolding sf by blast
    with g(2) show "\<exists>p g. priority_field_at sect p g
        \<and> (\<forall>q<p. \<forall>g'. \<not> priority_field_at sect q g') \<and> v = strip g" by blast
  qed
  have d: "\<forall>p v. spec_priority_field (drop p sect) = Some v
                 \<and> (\<forall>q<p. \<forall>g'. \<not> priority_field_at sect q g')
              \<longrightarrow> priority (issues ! idx) = Some (strip v)"
  proof (intro allI impI)
    fix p v
    assume h: "spec_priority_field (drop p sect) = Some v
                 \<and> (\<forall>q<p. \<forall>g'. \<not> priority_field_at sect q g')"
    then have "priority_field_at sect p (dropWhile isspace_chr v)"
      using spec_field_is_field by blast
    with h a have "priority (issues ! idx) = Some (strip (dropWhile isspace_chr v))" by blast
    then show "priority (issues ! idx) = Some (strip v)" by (simp only: strip_dropWhile)
  qed
  from a b c d show ?thesis by (intro conjI)
qed

theorem priority_is_first_field_witness:
  "priority (projr (snd (extract_issues ''tasks/reviews/INFRA_MONITORING.md''
        ''### 1. Timeout\<newline>**Severity:** Low \<newline>**Priority:** High'')) ! 0) = Some ''Low''
   \<and> priority (projr (snd (extract_issues ''tasks/reviews/INFRA_MONITORING.md''
        ''### 2. Leak'')) ! 0) = None
   \<and> priority (projr (snd (extract_issues ''tasks/reviews/INFRA_MONITORING.md''
        ''### 1. Leak\<newline>**Priority:**\<newline>\<newline>Next\<newline>**Severity:** High'')) ! 0) = Some ''Next''
   \<and> priority (projr (snd (extract_issues ''tasks/reviews/INFRA_MONITORING.md''
        ''### 3. Slow\<newline>**Priority:**  Medium'')) ! 0) = Some ''Medium''"
proof -
  let ?src = "''tasks/reviews/INFRA_MONITORING.md''"
  let ?d1 = "''### 1. Timeout\<newline>**Severity:** Low \<newline>**Priority:** High''"
  let ?d2 = "''### 2. Leak''"
  let ?d3 = "''### 1. Leak\<newline>**Priority:**\<newline>\<newline>Next\<newline>**Severity:** High''"
  let ?d4 = "''### 3. Slow\<newline>**Priority:**  Medium''"
  let ?s1 = "''**Severity:** Low \<newline>**Priority:** High''"
  let ?s3 = "''**Priority:**\<newline>\<newline>Next\<newline>**Severity:** High''"
  let ?s4 = "''**Priority:**  Medium''"
  have i1: "\<not> isl (snd (extract_issues ?src ?d1))
      \<and> 0 < length (projr (snd (extract_issues ?src ?d1)))" by code_simp
  then obtain lg1 where e1: "extract_issues ?src ?d1 = (lg1, Inr (projr (snd (extract_issues ?src ?d1))))"
    by (metis sum.collapse(2) surjective_pairing)
  have s1: "?s1 = trim_section (raw_section ?d1 (heading_finditer ?d1 0) 0)" by code_simp
  have "drop 0 ?s1 = ''**Severity:**'' @ '' '' @ ''Low '' @ ''\<newline>**Priority:** High''" by simp
  then have f: "priority_field_at ?s1 0 ''Low ''"
    unfolding priority_field_at_def
    by (intro exI [of _ "''**Severity:**''"] exI [of _ "'' ''"] exI [of _ "''\<newline>**Priority:** High''"])
       (simp add: isspace_chr_def newline_def)
  have st: "strip ''Low '' = ''Low''" by code_simp
  from priority_is_first_field [OF e1 _ s1] i1 f
  have p1: "priority (projr (snd (extract_issues ?src ?d1)) ! 0) = Some (strip ''Low '')"
    by blast
  have i2: "\<not> isl (snd (extract_issues ?src ?d2))
      \<and> 0 < length (projr (snd (extract_issues ?src ?d2)))" by code_simp
  then obtain lg2 where e2: "extract_issues ?src ?d2 = (lg2, Inr (projr (snd (extract_issues ?src ?d2))))"
    by (metis sum.collapse(2) surjective_pairing)
  have s2: "[] = trim_section (raw_section ?d2 (heading_finditer ?d2 0) 0)" by code_simp
  have n: "\<forall>p g. \<not> priority_field_at [] p g" by (simp add: priority_field_at_def)
  from priority_is_first_field [OF e2 _ s2] i2 n
  have p2: "priority (projr (snd (extract_issues ?src ?d2)) ! 0) = None" by blast
  have i3: "\<not> isl (snd (extract_issues ?src ?d3))
      \<and> 0 < length (projr (snd (extract_issues ?src ?d3)))" by code_simp
  then obtain lg3 where e3: "extract_issues ?src ?d3 = (lg3, Inr (projr (snd (extract_issues ?src ?d3))))"
    by (metis sum.collapse(2) surjective_pairing)
  have s3: "?s3 = trim_section (raw_section ?d3 (heading_finditer ?d3 0) 0)" by code_simp
  have "drop 0 ?s3 = ''**Priority:**'' @ ''\<newline>\<newline>'' @ ''Next'' @ ''\<newline>**Severity:** High''" by simp
  then have f3: "priority_field_at ?s3 0 ''Next''"
    unfolding priority_field_at_def
    by (intro exI [of _ "''**Priority:**''"] exI [of _ "''\<newline>\<newline>''"] exI [of _ "''\<newline>**Severity:** High''"])
       (simp add: isspace_chr_def newline_def)
  have st3: "strip ''Next'' = ''Next''" by code_simp
  from priority_is_first_field [OF e3 _ s3] i3 f3
  have p3: "priority (projr (snd (extract_issues ?src ?d3)) ! 0) = Some (strip ''Next'')"
    by blast
  have i4: "\<not> isl (snd (extract_issues ?src ?d4))
      \<and> 0 < length (projr (snd (extract_issues ?src ?d4)))" by code_simp
  then obtain lg4 where e4: "extract_issues ?src ?d4 = (lg4, Inr (projr (snd (extract_issues ?src ?d4))))"
    by (metis sum.collapse(2) surjective_pairing)
  have s4: "?s4 = trim_section (raw_section ?d4 (heading_finditer ?d4 0) 0)" by code_simp
  have f4: "spec_priority_field (drop 0 ?s4) = Some ''  Medium''" by code_simp
  have st4: "strip ''  Medium'' = ''Medium''" by code_simp
  from priority_is_first_field [OF e4 _ s4] i4 f4
  have p4: "priority (projr (snd (extract_issues ?src ?d4)) ! 0) = Some (strip ''  Medium'')"
    by blast
  from p1 p2 p3 p4 st st3 st4 show ?thesis by simp
qed

text \<open>
  The specification's words do not give the priority of the code. In the section
  \<open>**Priority:**\<close>, a blank line, \<open>Next\<close>, \<open>**Severity:** High\<close> the rest of the first
  label's line is empty, and the first field with text on its own line is the second one,
  with the text \<open>High\<close>; the code takes \<open>Next\<close>, the next line that is not blank.
\<close>

theorem priority_next_line_counterexample:
  "trim_section (raw_section ''### 1. Leak\<newline>**Priority:**\<newline>\<newline>Next\<newline>**Severity:** High''
      (heading_finditer ''### 1. Leak\<newline>**Priority:**\<newline>\<newline>Next\<newline>**Severity:** High'' 0) 0)
     = ''**Priority:**\<newline>\<newline>Next\<newline>**Severity:** High''
   \<and> map priority (projr (snd (extract_issues ''tasks/reviews/INFRA_MONITORING.md''
        ''### 1. Leak\<newline>**Priority:**\<newline>\<newline>Next\<newline>**Severity:** High'')))
     = [Some ''Next'']
   \<and> takeWhile (\<lambda>c. c \<noteq> newline) (drop 13 ''**Priority:**\<newline>\<newline>Next\<newline>**Severity:** High'') = []
   \<and> spec_search_priority ''**Priority:**\<newline>\<newline>Next\<newline>**Severity:** High'' = Some ''High''"
  by code_simp

section \<open>The body of an issue\<close>

text \<open>
  C2. The body is to be the heading line \<open>## <title>\<close>, a blank line, then the trimmed
  section. \<open>issue_of_match\<close> builds the three lines and joins those that are not empty,
  which drops the blank line as well: for the document \<open>### 1. Leak\<close>,
  \<open>Memory grows.\<close> the body is the heading line directly followed by the section.
\<close>

theorem body_without_blank_line:
  "map body (projr (snd (extract_issues ''tasks/reviews/INFRA_MONITORING.md''
        ''### 1. Leak\<newline>Memory grows.'')))
     = [''## Leak\<newline>Memory grows.\<newline>'']
   \<and> map title (projr (snd (extract_issues ''tasks/reviews/INFRA_MONITORING.md''
        ''### 1. Leak\<newline>Memory grows.''))) = [''Leak'']
   \<and> trim_section (raw_section ''### 1. Leak\<newline>Memory grows.''
        (heading_finditer ''### 1. Leak\<newline>Memory grows.'' 0) 0) = ''Memory grows.''
   \<and> ''## Leak\<newline>Memory grows.\<newline>'' \<noteq> ''## Leak'' @ [newline] @ [newline] @ ''Memory grows.''"
  by code_simp

section \<open>The trailing rule\<close>

lemma match_trailing_rule_hyphens:
  "match_trailing_rule s = Some n \<Longrightarrow>
     take 3 (drop (length (takeWhile (\<lambda>c. c = newline) s)) s) = ''---''"
  by (auto simp: match_trailing_rule_def Let_def dropWhile_eq_drop split: if_splits)

lemma match_trailing_rule_before_hyphen:
  assumes "take 1 (drop (length (takeWhile (\<lambda>c. c = newline) s) + 3) s) = ''-''"
  shows "match_trailing_rule s = None"
proof -
  define r1 where "r1 = dropWhile (\<lambda>c. c = newline) s"
  define r2 where "r2 = drop 3 r1"
  have "r2 = drop (length (takeWhile (\<lambda>c. c = newline) s) + 3) s"
    by (simp add: r2_def r1_def dropWhile_eq_drop add.commute)
  with assms have "take 1 r2 = ''-''" by simp
  then obtain r where r: "r2 = CHR ''-'' # r" by (cases r2) auto
  have ns: "\<not> isspace_chr (CHR ''-'')" by (simp add: isspace_chr_def)
  have tw: "takeWhile isspace_chr r2 = []" and dw: "dropWhile isspace_chr r2 = r2"
    using r ns by simp_all
  have ne: "r2 \<noteq> []" using r by simp
  show ?thesis
    unfolding match_trailing_rule_def Let_def r1_def [symmetric] r2_def [symmetric] tw dw
    using ne by simp
qed

lemma sub_trailing_rule_id:
  "(\<forall>i. take 3 (drop i s) \<noteq> ''---'') \<Longrightarrow> sub_trailing_rule s = s"
proof (induction s)
  case Nil
  then show ?case by simp
next
  case (Cons c cs)
  have "match_trailing_rule (c # cs) = None"
  proof (cases "match_trailing_rule (c # cs)")
    case None
    then show ?thesis .
  next
    case (Some n)
    from match_trailing_rule_hyphens [OF Some] Cons.prems show ?thesis by blast
  qed
  moreover have "\<forall>i. take 3 (drop i cs) \<noteq> ''---''"
  proof
    fix i
    from Cons.prems have "take 3 (drop (Suc i) (c # cs)) \<noteq> ''---''" by blast
    then show "take 3 (drop i cs) \<noteq> ''---''" by simp
  qed
  ultimately show ?case using Cons.IH by simp
qed

lemma rstrip_newlines_Cons:
  "rev (dropWhile (\<lambda>c. c = newline) (rev (c # b)))
     = (if \<forall>x \<in> set (c # b). x = newline then []
        else c # rev (dropWhile (\<lambda>c. c = newline) (rev b)))"
proof (cases "\<forall>x \<in> set b. x = newline")
  case True
  then have "dropWhile (\<lambda>c. c = newline) (rev b @ [c]) = dropWhile (\<lambda>c. c = newline) [c]"
    by (intro dropWhile_append2) auto
  moreover from True have "dropWhile (\<lambda>c. c = newline) (rev b) = []" by simp
  ultimately show ?thesis using True by simp
next
  case False
  then obtain x where "x \<in> set (rev b)" "\<not> x = newline" by auto
  then have "dropWhile (\<lambda>c. c = newline) (rev b @ [c]) = dropWhile (\<lambda>c. c = newline) (rev b) @ [c]"
    by (rule dropWhile_append1)
  then show ?thesis using False by auto
qed

lemma sub_trailing_rule_final:
  assumes "\<forall>i < length b. take 3 (drop i (b @ ''---'')) = ''---''
              \<longrightarrow> take 1 (drop (i + 3) (b @ ''---'')) = ''-''"
  shows "sub_trailing_rule (b @ ''---'') = rev (dropWhile (\<lambda>c. c = newline) (rev b))"
  using assms
proof (induction b)
  case Nil
  have "match_trailing_rule ''---'' = Some 3"
    by (simp add: match_trailing_rule_def newline_def)
  then show ?case by simp
next
  case (Cons c b)
  let ?s = "(c # b) @ ''---''"
  let ?k = "length (takeWhile (\<lambda>c. c = newline) ?s)"
  have hyp: "\<forall>i < length b. take 3 (drop i (b @ ''---'')) = ''---''
              \<longrightarrow> take 1 (drop (i + 3) (b @ ''---'')) = ''-''"
  proof (intro allI impI)
    fix i assume "i < length b" "take 3 (drop i (b @ ''---'')) = ''---''"
    then have "Suc i < length (c # b)" "take 3 (drop (Suc i) ?s) = ''---''"
      by (simp_all only: length_Cons Suc_less_eq append_Cons drop_Suc_Cons)
    with Cons.prems have "take 1 (drop (Suc i + 3) ?s) = ''-''" by blast
    moreover have "drop (Suc i + 3) ?s = drop (i + 3) (b @ ''---'')"
      by (simp only: add_Suc append_Cons drop_Suc_Cons)
    ultimately show "take 1 (drop (i + 3) (b @ ''---'')) = ''-''" by (simp only:)
  qed
  note ih = Cons.IH [OF hyp]
  show ?case
  proof (cases "\<forall>x \<in> set (c # b). x = newline")
    case True
    have nn: "CHR ''-'' \<noteq> newline" by (simp add: newline_def)
    have tw: "takeWhile (\<lambda>c. c = newline) ?s = c # b"
      using True nn takeWhile_append2 [of "c # b" "\<lambda>c. c = newline" "''---''"] by simp
    have dw: "dropWhile (\<lambda>c. c = newline) ?s = ''---''"
      using True nn dropWhile_append2 [of "c # b" "\<lambda>c. c = newline" "''---''"] by simp
    have "match_trailing_rule ?s = Some (length (c # b) + 3)"
      unfolding match_trailing_rule_def Let_def tw dw by simp
    then have "sub_trailing_rule ?s = sub_trailing_rule (drop (length (c # b) + 3) ?s)"
      by simp
    also have "\<dots> = []" by simp
    finally have l: "sub_trailing_rule ?s = []" .
    have r: "rev (dropWhile (\<lambda>c. c = newline) (rev (c # b))) = []"
      unfolding rstrip_newlines_Cons using True by simp
    from l r show ?thesis by (simp only:)
  next
    case False
    then obtain x where x: "x \<in> set (c # b)" "x \<noteq> newline" by blast
    have "length (takeWhile (\<lambda>c. c = newline) ?s) < length (c # b)"
    proof -
      have "takeWhile (\<lambda>c. c = newline) ?s = takeWhile (\<lambda>c. c = newline) (c # b)"
        using x by (intro takeWhile_append1) auto
      moreover have "length (takeWhile (\<lambda>c. c = newline) (c # b)) < length (c # b)"
      proof -
        have "dropWhile (\<lambda>c. c = newline) (c # b) \<noteq> []"
          using x by (auto simp: dropWhile_eq_Nil_conv)
        moreover have "length (c # b) = length (takeWhile (\<lambda>c. c = newline) (c # b))
            + length (dropWhile (\<lambda>c. c = newline) (c # b))"
          by (metis length_append takeWhile_dropWhile_id)
        ultimately show ?thesis by simp
      qed
      ultimately show ?thesis by simp
    qed
    then have k: "?k < length (c # b)" .
    have "match_trailing_rule ?s = None"
    proof (cases "take 3 (drop ?k ?s) = ''---''")
      case True
      with Cons.prems k have "take 1 (drop (?k + 3) ?s) = ''-''" by blast
      then show ?thesis by (rule match_trailing_rule_before_hyphen)
    next
      case nh: False
      show ?thesis
      proof (cases "match_trailing_rule ?s")
        case None
        then show ?thesis .
      next
        case (Some n)
        from match_trailing_rule_hyphens [OF Some] nh show ?thesis by blast
      qed
    qed
    then have l: "sub_trailing_rule ?s = c # sub_trailing_rule (b @ ''---'')" by simp
    have r: "rev (dropWhile (\<lambda>c. c = newline) (rev (c # b)))
        = c # rev (dropWhile (\<lambda>c. c = newline) (rev b))"
      unfolding rstrip_newlines_Cons using False by simp
    from l r ih show ?thesis by (simp only:)
  qed
qed

lemma strip_chars_append_dropped:
  assumes "\<forall>x \<in> set n. P x"
  shows "strip_chars P (u @ n) = strip_chars P u"
proof (cases "\<forall>x \<in> set u. P x")
  case True
  with assms have "dropWhile P (u @ n) = []" "dropWhile P u = []" by auto
  then show ?thesis by (simp only: strip_chars_def)
next
  case False
  then obtain x where "x \<in> set u" "\<not> P x" by blast
  then have "dropWhile P (u @ n) = dropWhile P u @ n" by (rule dropWhile_append1)
  then have "rev (dropWhile P (u @ n)) = rev n @ rev (dropWhile P u)" by simp
  moreover have "dropWhile P (rev n @ rev (dropWhile P u)) = dropWhile P (rev (dropWhile P u))"
    using assms by (intro dropWhile_append2) auto
  ultimately show ?thesis by (simp only: strip_chars_def)
qed

lemma strip_chars_idem: "strip_chars P (strip_chars P x) = strip_chars P x"
proof (cases "strip_chars P x = []")
  case True
  show ?thesis unfolding True by (simp add: strip_chars_def)
next
  case False
  let ?y = "strip_chars P x"
  from strip_chars_ends [OF False]
  have h: "\<not> P (hd ?y)" and l: "\<not> P (last ?y)" by simp_all
  from False h have a: "dropWhile P ?y = ?y" by (cases ?y) auto
  from False l have "\<not> P (hd (rev ?y))" by (simp add: hd_rev)
  with False have b: "dropWhile P (rev ?y) = rev ?y" by (cases "rev ?y") auto
  have "strip_chars P ?y = rev (dropWhile P (rev (dropWhile P ?y)))"
    by (simp only: strip_chars_def)
  also have "\<dots> = ?y" unfolding a b by simp
  finally show ?thesis .
qed

lemma strip_rstrip_newlines:
  "strip (rev (dropWhile (\<lambda>c. c = newline) (rev b))) = strip b"
proof -
  let ?u = "rev (dropWhile (\<lambda>c. c = newline) (rev b))"
  let ?n = "rev (takeWhile (\<lambda>c. c = newline) (rev b))"
  have "b = ?u @ ?n" by (metis rev_append rev_rev_ident takeWhile_dropWhile_id)
  moreover have "\<forall>x \<in> set ?n. isspace_chr x"
    using isspace_newline by (auto dest: set_takeWhileD)
  ultimately show ?thesis
    unfolding strip_def using strip_chars_append_dropped [of ?n isspace_chr ?u] by simp
qed

text \<open>
  C3, as the code has it. Let \<open>s\<close> be the stripped span. When \<open>s\<close> ends with three
  hyphens and every other run of three hyphens in it is followed by a hyphen (that is, the
  only run of three or more hyphens is the one that ends the span), the trimmed section is
  the text before the last three hyphens, stripped: a final line of exactly three hyphens
  goes with the blank lines before it, and of a longer run the last three hyphens go. When
  \<open>s\<close> has no run of three hyphens the trimmed section is \<open>s\<close>. The trimmed section
  never starts or ends with white space.
\<close>

theorem trim_section_final_rule:
  assumes s: "s = strip raw"
  shows "(\<forall>b. s = b @ ''---''
            \<and> (\<forall>i < length b. take 3 (drop i s) = ''---'' \<longrightarrow> take 1 (drop (i + 3) s) = ''-'')
            \<longrightarrow> trim_section raw = strip b)
       \<and> ((\<forall>i. take 3 (drop i s) \<noteq> ''---'') \<longrightarrow> trim_section raw = s)
       \<and> (trim_section raw = []
            \<or> \<not> isspace_chr (hd (trim_section raw)) \<and> \<not> isspace_chr (last (trim_section raw)))"
proof (intro conjI allI impI)
  fix b
  assume "s = b @ ''---''
            \<and> (\<forall>i < length b. take 3 (drop i s) = ''---'' \<longrightarrow> take 1 (drop (i + 3) s) = ''-'')"
  then have b: "s = b @ ''---''" and
    h: "\<forall>i < length b. take 3 (drop i (b @ ''---'')) = ''---''
              \<longrightarrow> take 1 (drop (i + 3) (b @ ''---'')) = ''-''" by auto
  from sub_trailing_rule_final [OF h] b
  have "sub_trailing_rule s = rev (dropWhile (\<lambda>c. c = newline) (rev b))" by simp
  then show "trim_section raw = strip b"
    unfolding trim_section_def s [symmetric] by (simp only: strip_rstrip_newlines)
next
  assume "\<forall>i. take 3 (drop i s) \<noteq> ''---''"
  then have "sub_trailing_rule s = s" by (rule sub_trailing_rule_id)
  then have "trim_section raw = strip s" unfolding trim_section_def s [symmetric] by simp
  also have "\<dots> = s" unfolding s strip_def by (rule strip_chars_idem)
  finally show "trim_section raw = s" .
next
  show "trim_section raw = []
            \<or> \<not> isspace_chr (hd (trim_section raw)) \<and> \<not> isspace_chr (last (trim_section raw))"
    unfolding trim_section_def using strip_no_space_end by blast
qed

theorem trim_section_final_rule_witness:
  "trim_section ''Intro\<newline>\<newline>---\<newline>'' = ''Intro''
   \<and> trim_section ''Intro\<newline>\<newline>-----\<newline>'' = ''Intro\<newline>\<newline>--''
   \<and> trim_section '' ab '' = ''ab''"
proof -
  have s1: "''Intro\<newline>\<newline>---'' = strip ''Intro\<newline>\<newline>---\<newline>''" by code_simp
  have h1: "\<forall>i < length ''Intro\<newline>\<newline>''. take 3 (drop i ''Intro\<newline>\<newline>---'') = ''---''
       \<longrightarrow> take 1 (drop (i + 3) ''Intro\<newline>\<newline>---'') = ''-''"
    by (simp add: All_less_Suc)
  have b1: "strip ''Intro\<newline>\<newline>'' = ''Intro''" by code_simp
  from trim_section_final_rule [OF s1] h1
  have "trim_section ''Intro\<newline>\<newline>---\<newline>'' = strip ''Intro\<newline>\<newline>''" by simp
  with b1 have t1: "trim_section ''Intro\<newline>\<newline>---\<newline>'' = ''Intro''" by simp
  have s2: "''Intro\<newline>\<newline>-----'' = strip ''Intro\<newline>\<newline>-----\<newline>''" by code_simp
  have h2: "\<forall>i < length ''Intro\<newline>\<newline>--''. take 3 (drop i ''Intro\<newline>\<newline>-----'') = ''---''
       \<longrightarrow> take 1 (drop (i + 3) ''Intro\<newline>\<newline>-----'') = ''-''"
    by (simp add: All_less_Suc)
  have b2: "strip ''Intro\<newline>\<newline>--'' = ''Intro\<newline>\<newline>--''" by code_simp
  from trim_section_final_rule [OF s2] h2
  have "trim_section ''Intro\<newline>\<newline>-----\<newline>'' = strip ''Intro\<newline>\<newline>--''" by simp
  with b2 have t2: "trim_section ''Intro\<newline>\<newline>-----\<newline>'' = ''Intro\<newline>\<newline>--''" by simp
  have s3: "''ab'' = strip '' ab ''" by code_simp
  have h3: "\<forall>i. take 3 (drop i ''ab'') \<noteq> ''---''"
  proof
    fix i
    have "length (take 3 (drop i ''ab'')) \<le> 2" by simp
    then show "take 3 (drop i ''ab'') \<noteq> ''---''" by (metis length_Cons list.size(3) numeral_3_eq_3 Suc_n_not_le_n numeral_2_eq_2)
  qed
  from trim_section_final_rule [OF s3] h3
  have t3: "trim_section '' ab '' = ''ab''" by blast
  from t1 t2 t3 show ?thesis by (intro conjI)
qed

text \<open>
  A final line of five hyphens is not removed: its last three hyphens are, and two remain.
\<close>

theorem trailing_rule_counterexample:
  "trim_section ''Intro\<newline>\<newline>-----'' = ''Intro\<newline>\<newline>--''
   \<and> trim_section ''Intro\<newline>\<newline>-----'' \<noteq> ''Intro''
   \<and> map body (projr (snd (extract_issues ''tasks/reviews/INFRA_MONITORING.md''
        ''### 1. Leak\<newline>Intro\<newline>\<newline>-----\<newline>'')))
     = [''## Leak\<newline>Intro\<newline>\<newline>--\<newline>'']"
  by code_simp

section \<open>Reading the metadata block back\<close>

lemma spec_split_lines_nonempty: "spec_split_lines s \<noteq> []"
  by (induction s) (auto split: list.splits)

lemma spec_split_lines_append:
  "spec_split_lines (a @ newline # b) = spec_split_lines a @ spec_split_lines b"
proof (induction a)
  case Nil
  then show ?case by simp
next
  case (Cons c a)
  show ?case
  proof (cases "c = newline")
    case True
    with Cons show ?thesis by simp
  next
    case False
    obtain l ls where l: "spec_split_lines a = l # ls"
      using spec_split_lines_nonempty [of a] by (cases "spec_split_lines a") auto
    with Cons False show ?thesis by simp
  qed
qed

lemma spec_split_lines_line: "newline \<notin> set l \<Longrightarrow> spec_split_lines l = [l]"
  by (induction l) auto

lemma hd_escape: "escape v \<noteq> [] \<Longrightarrow> hd (escape v) \<noteq> CHR 0x22"
  by (cases v) (auto simp: escape_def)

lemma escape_Cons:
  "escape (c # v) = (if c = CHR 0x22 then CHR 0x5C # CHR 0x22 # escape v else c # escape v)"
  by (simp add: escape_def)

lemma spec_unescape_escape: "spec_unescape (escape v) = v"
proof (induction v)
  case Nil
  then show ?case by (simp add: escape_def)
next
  case (Cons c v)
  show ?case
  proof (cases "c = CHR 0x22")
    case True
    with Cons show ?thesis by (simp add: escape_Cons)
  next
    case False
    show ?thesis
    proof (cases "escape v")
      case Nil
      with Cons False show ?thesis by (simp add: escape_Cons)
    next
      case (Cons b cs)
      with hd_escape [of v] have "b \<noteq> CHR 0x22" by auto
      with Cons Cons.IH False show ?thesis by (simp add: escape_Cons)
    qed
  qed
qed

lemma set_escape: "set (escape v) \<subseteq> set v \<union> {CHR 0x5C}"
  by (induction v) (auto simp: escape_Cons escape_def)

lemma spec_split_key_render:
  "CHR '':'' \<notin> set k \<Longrightarrow> spec_split_key (k @ [CHR '':'', CHR '' '', CHR 0x22] @ r) = Some (k, r)"
  by (induction k) auto

lemma spec_parse_field_render:
  assumes "CHR '':'' \<notin> set k"
  shows "spec_parse_field (render_field (k, v)) = Some (k, v)"
proof -
  have "render_field (k, v) = k @ [CHR '':'', CHR '' '', CHR 0x22] @ (escape v @ [CHR 0x22])"
    by (simp add: render_field_def)
  then have "spec_split_key (render_field (k, v)) = Some (k, escape v @ [CHR 0x22])"
    using spec_split_key_render [OF assms] by simp
  then show ?thesis by (simp add: spec_parse_field_def spec_unescape_escape)
qed

lemma digit_chr_digit: "digit_chr d \<in> set ''0123456789''"
proof -
  define m where "m = d mod 10"
  have "m < 10" by (simp add: m_def)
  then have "m \<in> {0, 1, 2, 3, 4, 5, 6, 7, 8, 9}" by auto
  then show ?thesis unfolding digit_chr_def m_def [symmetric] by auto
qed

lemma dec_nat_digits: "dec_nat n \<noteq> [] \<and> set (dec_nat n) \<subseteq> set ''0123456789''"
proof (induction n rule: dec_nat.induct)
  case (1 n)
  show ?case
  proof (cases "n < 10")
    case True
    then show ?thesis using digit_chr_digit [of n] by (subst (1 2) dec_nat.simps) simp
  next
    case False
    with 1 have "set (dec_nat (n div 10)) \<subseteq> set ''0123456789''" by simp
    with False show ?thesis
      using digit_chr_digit [of "n mod 10"] by (subst (1 2) dec_nat.simps) simp
  qed
qed

lemma str_int_no_newline: "newline \<notin> set (str_int i)"
  using dec_nat_digits [of "nat i"] dec_nat_digits [of "nat (- i)"]
  by (auto simp: str_int_def newline_def)

lemma spec_int_of_str_str_int: "spec_int_of_str (str_int i) = i"
proof (cases "i < 0")
  case True
  then show ?thesis
    by (simp add: spec_int_of_str_def str_int_def nat_of_digits_dec_nat)
next
  case False
  obtain c cs where d: "dec_nat (nat i) = c # cs" "c \<in> set ''0123456789''"
    using dec_nat_digits [of "nat i"] by (cases "dec_nat (nat i)") auto
  then have "c \<noteq> CHR ''-''" by auto
  with d have "take 1 (dec_nat (nat i)) \<noteq> ''-''" by simp
  with False show ?thesis
    by (simp add: spec_int_of_str_def str_int_def nat_of_digits_dec_nat)
qed

lemma update_append_fresh:
  "k \<notin> fst ` set xs \<Longrightarrow> AList.update k v (xs @ ys) = xs @ AList.update k v ys"
  by (induction xs) auto

lemma foldl_update_fresh:
  "\<forall>k \<in> fst ` set ext. k \<notin> fst ` set std \<Longrightarrow>
     \<exists>rest. foldl (\<lambda>d (k, v). AList.update k v d) (std @ r) ext = std @ rest"
proof (induction ext arbitrary: r)
  case Nil
  then show ?case by simp
next
  case (Cons e ext)
  obtain k v where e: "e = (k, v)" by (cases e)
  with Cons.prems have "k \<notin> fst ` set std" by auto
  then have "AList.update k v (std @ r) = std @ AList.update k v r"
    by (rule update_append_fresh)
  moreover from Cons.prems have "\<forall>k \<in> fst ` set ext. k \<notin> fst ` set std" by auto
  ultimately show ?case using Cons.IH [of "AList.update k v r"] e by simp
qed

lemma spec_split_lines_join:
  "ls \<noteq> [] \<Longrightarrow>
     spec_split_lines (join [newline] ls @ newline # rest)
       = concat (map spec_split_lines ls) @ spec_split_lines rest"
proof (induction "[newline]" ls rule: join.induct)
  case 1
  then show ?case by simp
next
  case (2 x)
  then show ?case by (simp add: spec_split_lines_append)
next
  case (3 x y ys)
  have "join [newline] (x # y # ys) @ newline # rest
      = x @ newline # (join [newline] (y # ys) @ newline # rest)" by simp
  then have "spec_split_lines (join [newline] (x # y # ys) @ newline # rest)
      = spec_split_lines x @ spec_split_lines (join [newline] (y # ys) @ newline # rest)"
    by (simp only: spec_split_lines_append)
  with 3 show ?case by simp
qed

lemma concat_split_lines:
  "\<forall>l \<in> set ls. newline \<notin> set l \<Longrightarrow> concat (map spec_split_lines ls) = ls"
  by (induction ls) (auto simp: spec_split_lines_line)

lemma map_filter_append: "List.map_filter f (xs @ ys) = List.map_filter f xs @ List.map_filter f ys"
  by (simp add: List.map_filter_def)

lemma map_filter_render:
  "\<forall>(k, v) \<in> set fs. CHR '':'' \<notin> set k \<Longrightarrow>
     List.map_filter spec_parse_field (map render_field fs) = fs"
proof (induction fs)
  case Nil
  then show ?case by (simp add: List.map_filter_def)
next
  case (Cons f fs)
  obtain k v where f: "f = (k, v)" by (cases f)
  with Cons.prems have "spec_parse_field (render_field (k, v)) = Some (k, v)"
    by (intro spec_parse_field_render) auto
  moreover from Cons have "List.map_filter spec_parse_field (map render_field fs) = fs" by auto
  ultimately show ?case using f by (simp add: List.map_filter_def)
qed

lemma frontmatter_lines_render:
  "frontmatter_lines self =
     [''---''] @ map render_field
        (foldl (\<lambda>d (k, v). AList.update k v d) (standard_fields self) (extra_frontmatter self))
     @ [''---'']"
  by (simp add: frontmatter_lines_def standard_fields_def render_field_def Let_def)

lemma render_field_newline:
  "newline \<in> set (render_field (k, v)) \<Longrightarrow> newline \<in> set k \<or> newline \<in> set v"
  using set_escape [of v] by (auto simp: render_field_def newline_def)

lemma render_field_not_rule: "CHR '':'' \<in> set (render_field f)"
  by (cases f) (simp add: render_field_def)

lemma map_of_prefix: "map_of xs k = Some v \<Longrightarrow> map_of (xs @ ys) k = Some v"
  by (simp add: map_add_def)

lemma match_heading_title:
  "match_heading s = Some (g1, g2, n) \<Longrightarrow> newline \<notin> set g2"
  by (auto simp: match_heading_def Let_def split: if_splits dest: set_takeWhileD)

lemma heading_finditer_titles:
  "\<forall>m \<in> set (heading_finditer doc pos). newline \<notin> set (m_group2 m)"
proof (induction doc pos rule: heading_finditer.induct)
  case (1 doc pos)
  show ?case
  proof (cases "length doc < pos")
    case True
    then show ?thesis by (subst heading_finditer.simps) simp
  next
    case False
    show ?thesis
    proof (cases "at_line_start doc pos")
      case nol: False
      with False have eq: "heading_finditer doc pos = heading_finditer doc (pos + 1)"
        by (subst heading_finditer.simps) simp
      from "1.IH"(3) [OF False nol] show ?thesis unfolding eq .
    next
      case True
      show ?thesis
      proof (cases "match_heading (drop pos doc)")
        case None
        with False True have eq: "heading_finditer doc pos = heading_finditer doc (pos + 1)"
          by (subst heading_finditer.simps) simp
        from "1.IH"(1) [OF False True None] show ?thesis unfolding eq .
      next
        case (Some r)
        obtain g1 g2 n where r: "r = (g1, g2, n)" by (cases r)
        from Some r False True have eq: "heading_finditer doc pos
            = \<lparr>m_start = pos, m_end = pos + n, m_group1 = g1, m_group2 = g2\<rparr>
                # heading_finditer doc (pos + n)"
          by (subst heading_finditer.simps) simp
        from Some r have "newline \<notin> set g2" by (auto dest: match_heading_title)
        with "1.IH"(2) [OF False True Some r [symmetric] refl] show ?thesis
          unfolding eq by simp
      qed
    qed
  qed
qed

lemma set_strip: "set (strip x) \<subseteq> set x"
  unfolding strip_def strip_chars_def by (auto dest!: set_dropWhileD)

lemma set_path_stem: "set (path_stem p) \<subseteq> set p"
proof -
  have "set (path_name p) \<subseteq> set p"
    unfolding path_name_def by (auto dest!: set_takeWhileD)
  moreover have "set (path_stem p) \<subseteq> set (path_name p)"
    unfolding path_stem_def Let_def by (auto dest: in_set_takeD)
  ultimately show ?thesis by blast
qed

lemma set_parse_group: "parse_group stem = Inr (g, c) \<Longrightarrow> set g \<subseteq> set stem"
  by (auto simp: parse_group_def split: if_splits dest: in_set_takeD)

lemma strip_field_text:
  assumes "g \<noteq> []" "\<not> isspace_chr (hd g)"
  shows "strip g \<noteq> []"
proof -
  from assms have d: "dropWhile isspace_chr g = g" by (cases g) auto
  have "hd g \<in> set (rev g)" using assms(1) by simp
  with assms(2) have "\<not> (\<forall>x \<in> set (rev g). isspace_chr x)" by blast
  then have "dropWhile isspace_chr (rev g) \<noteq> []" by (simp add: dropWhile_eq_Nil_conv)
  then show ?thesis unfolding strip_def strip_chars_def d by simp
qed

lemma extracted_issue_fields:
  assumes ex: "extract_issues src doc = (lg, Inr issues)" and i: "iss \<in> set issues"
      and src: "newline \<notin> set src"
  shows "newline \<notin> set (title iss) \<and> newline \<notin> set (group iss)
       \<and> newline \<notin> set (category iss) \<and> newline \<notin> set (status iss)
       \<and> newline \<notin> set (source_path iss)
       \<and> (\<forall>p. priority iss = Some p \<longrightarrow> p \<noteq> [] \<and> newline \<notin> set p)
       \<and> extra_frontmatter iss = []"
proof -
  let ?ms = "heading_finditer doc 0"
  from extract_issues_Inr [OF ex i] obtain g c k where
    pg: "parse_group (path_stem src) = Inr (g, c)" and k: "k < length ?ms" and
    iss: "iss = issue_of_match src doc g c ?ms k" by blast
  have "newline \<notin> set (m_group2 (?ms ! k))" using heading_finditer_titles [of doc 0] k by simp
  then have t: "newline \<notin> set (title iss)"
    using set_strip [of "m_group2 (?ms ! k)"] by (auto simp: iss issue_of_match_def Let_def)
  have g: "newline \<notin> set (group iss)"
    using set_parse_group [OF pg] set_path_stem [of src] src by (auto simp: iss issue_of_match_fields)
  have c: "newline \<notin> set (category iss)"
    using parse_group_category [OF pg] by (auto simp: iss issue_of_match_fields newline_def)
  have s: "newline \<notin> set (status iss)" by (simp add: iss issue_of_match_fields newline_def)
  have sp: "newline \<notin> set (source_path iss)" using src by (simp add: iss issue_of_match_fields)
  have x: "extra_frontmatter iss = []" by (simp add: iss issue_of_match_fields)
  have p: "\<forall>p. priority iss = Some p \<longrightarrow> p \<noteq> [] \<and> newline \<notin> set p"
  proof (intro allI impI)
    fix p assume p: "priority iss = Some p"
    let ?sect = "trim_section (raw_section doc ?ms k)"
    from p obtain t where t: "search_priority ?sect = Some t" "p = strip t"
      unfolding iss issue_of_match_priority by (cases "search_priority ?sect") auto
    from t(1) obtain q where "match_priority (drop q ?sect) = Some t"
      unfolding search_priority_first by blast
    from match_priority_to_field [OF trim_section_stripped this]
    have "t \<noteq> [] \<and> \<not> isspace_chr (hd t) \<and> newline \<notin> set t"
      unfolding priority_field_at_def by blast
    then show "p \<noteq> [] \<and> newline \<notin> set p"
      using strip_field_text [of t] set_strip [of t] t(2) by auto
  qed
  from t g c s sp p x show ?thesis by (intro conjI)
qed

text \<open>
  C7, as the code has it. Let the title, group, category, status and source path of an
  issue, and its priority when present, hold no line feed, let a priority that is present
  not be empty, and let \<open>extra_frontmatter\<close> not use one of the eight keys of the
  serializer. Then reading the metadata block of \<open>document\<close> back gives the title, the
  category, the priority, the sequence and the issue index of the issue. Every issue that
  \<open>extract_issues\<close> returns for a source path without a line feed meets these conditions
  (\<open>extracted_issue_fields\<close>).
\<close>

theorem metadata_round_trip:
  assumes t: "newline \<notin> set (title iss)" and g: "newline \<notin> set (group iss)"
      and c: "newline \<notin> set (category iss)" and s: "newline \<notin> set (status iss)"
      and sp: "newline \<notin> set (source_path iss)"
      and p: "\<forall>p. priority iss = Some p \<longrightarrow> p \<noteq> [] \<and> newline \<notin> set p"
      and x: "\<forall>k \<in> fst ` set (extra_frontmatter iss).
                k \<notin> set [''title'', ''group'', ''category'', ''priority'', ''status'',
                           ''source'', ''issue_index'', ''sequence'']"
  shows "\<exists>fields. spec_parse_metadata (document iss) = Some fields
       \<and> map_of fields ''title'' = Some (title iss)
       \<and> map_of fields ''category'' = Some (category iss)
       \<and> map_option spec_priority_of_text (map_of fields ''priority'') = Some (priority iss)
       \<and> map_option spec_int_of_str (map_of fields ''sequence'') = Some (sequence iss)
       \<and> map_option spec_int_of_str (map_of fields ''issue_index'')
           = Some (source_issue_index iss)"
proof -
  let ?std = "standard_fields iss"
  define ptext where "ptext = (case priority iss of None \<Rightarrow> [] | Some p \<Rightarrow> p)"
  have pn: "newline \<notin> set ptext" using p by (auto simp: ptext_def split: option.splits)
  have keys: "fst ` set ?std = set [''title'', ''group'', ''category'', ''priority'', ''status'',
                           ''source'', ''issue_index'', ''sequence'']"
    by (simp add: standard_fields_def)
  from x keys have "\<forall>k \<in> fst ` set (extra_frontmatter iss). k \<notin> fst ` set ?std" by simp
  from foldl_update_fresh [OF this, of "[]"] obtain rest where
    fields: "foldl (\<lambda>d (k, v). AList.update k v d) ?std (extra_frontmatter iss) = ?std @ rest"
    by auto
  define X where "X = concat (map spec_split_lines (map render_field rest))"
  define Y where "Y = spec_split_lines (newline # rstrip (body iss) @ [newline])"
  have nl: "\<forall>l \<in> set (map render_field ?std). newline \<notin> set l"
  proof
    fix l assume "l \<in> set (map render_field ?std)"
    then obtain k v where kv: "(k, v) \<in> set ?std" "l = render_field (k, v)" by auto
    from kv(1) have "newline \<notin> set k \<and> newline \<notin> set v"
      using t g c s sp pn str_int_no_newline
      by (auto simp: standard_fields_def ptext_def [symmetric]) (simp_all add: newline_def)
    with kv(2) show "newline \<notin> set l" using render_field_newline by blast
  qed
  have fm: "frontmatter_lines iss = [''---''] @ map render_field ?std @ map render_field rest @ [''---'']"
    by (simp add: frontmatter_lines_render fields)
  have rule: "spec_split_lines ''---'' = [''---'']"
    by (intro spec_split_lines_line) (simp add: newline_def)
  have "concat (map spec_split_lines (frontmatter_lines iss))
      = [''---''] @ map render_field ?std @ X @ [''---'']"
    unfolding fm using concat_split_lines [OF nl] rule by (simp add: X_def)
  moreover have "document iss
      = join [newline] (frontmatter_lines iss) @ newline # (newline # rstrip (body iss) @ [newline])"
    by (simp add: document_def Let_def)
  moreover have "frontmatter_lines iss \<noteq> []" by (simp add: fm)
  ultimately have lines: "spec_split_lines (document iss)
      = ''---'' # (map render_field ?std @ X @ ''---'' # Y)"
    by (simp add: spec_split_lines_join Y_def)
  have notrule: "\<forall>l \<in> set (map render_field ?std). l \<noteq> ''---''"
  proof
    fix l assume "l \<in> set (map render_field ?std)"
    then have "CHR '':'' \<in> set l" using render_field_not_rule by auto
    then show "l \<noteq> ''---''" by auto
  qed
  define T where "T = takeWhile (\<lambda>l. l \<noteq> ''---'') (X @ ''---'' # Y)"
  have tw: "takeWhile (\<lambda>l. l \<noteq> ''---'') (map render_field ?std @ X @ ''---'' # Y)
      = map render_field ?std @ T"
    unfolding T_def using notrule by (intro takeWhile_append2) auto
  have colon: "\<forall>(k, v) \<in> set ?std. CHR '':'' \<notin> set k" by (simp add: standard_fields_def)
  define W where "W = List.map_filter spec_parse_field T"
  have parsed: "spec_parse_metadata (document iss) = Some (?std @ W)"
    unfolding spec_parse_metadata_def lines
    by (simp add: tw map_filter_append map_filter_render [OF colon] W_def)
  have l1: "map_of (?std @ W) ''title'' = Some (title iss)"
    by (rule map_of_prefix) (simp add: standard_fields_def)
  have l2: "map_of (?std @ W) ''category'' = Some (category iss)"
    by (rule map_of_prefix) (simp add: standard_fields_def)
  have l3: "map_of (?std @ W) ''priority'' = Some ptext"
    by (rule map_of_prefix) (simp add: standard_fields_def ptext_def)
  have l4: "map_of (?std @ W) ''sequence'' = Some (str_int (sequence iss))"
    by (rule map_of_prefix) (simp add: standard_fields_def)
  have l5: "map_of (?std @ W) ''issue_index'' = Some (str_int (source_issue_index iss))"
    by (rule map_of_prefix) (simp add: standard_fields_def)
  have pr: "spec_priority_of_text ptext = priority iss"
    using p by (auto simp: spec_priority_of_text_def ptext_def split: option.splits)
  from parsed l1 l2 l3 l4 l5 pr show ?thesis
    by (intro exI [of _ "?std @ W"]) (simp add: spec_int_of_str_str_int)
qed

theorem metadata_round_trip_witness:
  "map_option (\<lambda>f. (map_of f ''title'', map_of f ''category'',
                     map_option spec_priority_of_text (map_of f ''priority''),
                     map_option spec_int_of_str (map_of f ''sequence''),
                     map_option spec_int_of_str (map_of f ''issue_index'')))
     (spec_parse_metadata (document
        \<lparr>title = [CHR ''S'', CHR ''a'', CHR ''y'', CHR '' '', CHR 0x22, CHR ''h'', CHR ''i'', CHR 0x22],
         source_issue_index = 12, group = ''INFRA'', category = ''monitoring'', sequence = 3,
         source_path = ''tasks/reviews/INFRA_MONITORING.md'', body = ''## Say hi\<newline>x\<newline>'',
         priority = None, status = ''pending'', extra_frontmatter = [(''owner'', ''me'')]\<rparr>))
   = Some (Some [CHR ''S'', CHR ''a'', CHR ''y'', CHR '' '', CHR 0x22, CHR ''h'', CHR ''i'', CHR 0x22],
           Some ''monitoring'', Some None, Some 3, Some 12)"
proof -
  let ?J = "\<lparr>title = [CHR ''S'', CHR ''a'', CHR ''y'', CHR '' '', CHR 0x22, CHR ''h'', CHR ''i'', CHR 0x22],
         source_issue_index = 12, group = ''INFRA'', category = ''monitoring'', sequence = 3,
         source_path = ''tasks/reviews/INFRA_MONITORING.md'', body = ''## Say hi\<newline>x\<newline>'',
         priority = None, status = ''pending'', extra_frontmatter = [(''owner'', ''me'')]\<rparr>"
  have "\<exists>fields. spec_parse_metadata (document ?J) = Some fields
       \<and> map_of fields ''title'' = Some (title ?J)
       \<and> map_of fields ''category'' = Some (category ?J)
       \<and> map_option spec_priority_of_text (map_of fields ''priority'') = Some (priority ?J)
       \<and> map_option spec_int_of_str (map_of fields ''sequence'') = Some (sequence ?J)
       \<and> map_option spec_int_of_str (map_of fields ''issue_index'')
           = Some (source_issue_index ?J)"
    by (rule metadata_round_trip) (simp_all add: newline_def)
  then show ?thesis by auto
qed

text \<open>
  Without the conditions the values do not come back. An entry \<open>title\<close> of
  \<open>extra_frontmatter\<close> replaces the title in the block; and for a source file whose name
  holds a line feed followed by a line \<open>---\<close>, the group ends the block before the
  category line, so the category is not found.
\<close>

theorem metadata_round_trip_counterexample:
  "map_option (\<lambda>f. map_of f ''title'')
     (spec_parse_metadata (document
        \<lparr>title = ''Leak'', source_issue_index = 1, group = ''INFRA'', category = ''monitoring'',
         sequence = 1, source_path = ''tasks/reviews/INFRA_MONITORING.md'', body = ''## Leak\<newline>'',
         priority = None, status = ''pending'', extra_frontmatter = [(''title'', ''Other'')]\<rparr>))
     = Some (Some ''Other'')
   \<and> map title (projr (snd (extract_issues ''tasks/reviews/A\<newline>---\<newline>B_MONITORING.md'' ''### 1. Leak'')))
     = [''Leak'']
   \<and> map category (projr (snd (extract_issues ''tasks/reviews/A\<newline>---\<newline>B_MONITORING.md'' ''### 1. Leak'')))
     = [''monitoring'']
   \<and> map (\<lambda>i. map_option (\<lambda>f. map_of f ''category'') (spec_parse_metadata (document i)))
       (projr (snd (extract_issues ''tasks/reviews/A\<newline>---\<newline>B_MONITORING.md'' ''### 1. Leak'')))
     = [Some None]"
  by code_simp

end
